theory Spec2Isabelle
  imports Main "HOL-Library.Monad_Syntax"
begin

section \<open>Strings\<close>

text \<open>
  A JavaScript string is a sequence of UTF-16 code units and \<^verbatim>\<open>length\<close> counts
  code units. A code unit is modelled by its numeric value; every character of the
  symbol tables of \<^verbatim>\<open>tokenizer/symbols.ts\<close> lies in the Basic Multilingual Plane and
  is one code unit.
\<close>

type_synonym jschar = nat
type_synonym jsstring = "jschar list"

text \<open>ASCII literals are written through \<open>js\<close>.\<close>

definition js :: "string \<Rightarrow> jsstring" where
  "js s = map of_char s"

text \<open>\<^verbatim>\<open>String.prototype.startsWith(d)\<close> (position 0).\<close>

definition startsWith :: "'a list \<Rightarrow> 'a list \<Rightarrow> bool" where
  "startsWith s d = (take (length d) s = d)"

text \<open>
  \<^verbatim>\<open>s.substring(i)\<close> and \<^verbatim>\<open>s.substring(0, i)\<close>: a negative index is clamped to 0
  (\<open>nat\<close> of a negative integer is 0) and an index beyond the end to the length
  (\<open>drop\<close> and \<open>take\<close> beyond the end).
\<close>

definition substring_from :: "'a list \<Rightarrow> int \<Rightarrow> 'a list" where
  "substring_from s i = drop (nat i) s"

definition substring_to :: "'a list \<Rightarrow> int \<Rightarrow> 'a list" where
  "substring_to s i = take (nat i) s"

text \<open>
  \<^verbatim>\<open>s.lastIndexOf(d, pos)\<close>: \<open>pos\<close> is clamped between 0 and the length, the
  candidates are the indices from there down to 0, and the result is the first one at
  which \<open>d\<close> occurs, or -1. The empty \<open>d\<close> occurs at the clamped position.
\<close>

definition lastIndexOf :: "'a list \<Rightarrow> 'a list \<Rightarrow> int \<Rightarrow> int" where
  "lastIndexOf s d pos =
     (let start = min (nat pos) (length s)
      in case find (\<lambda>i. take (length d) (drop i s) = d) (rev [0..<Suc start]) of
           None \<Rightarrow> - 1
         | Some i \<Rightarrow> int i)"

text \<open>
  \<^verbatim>\<open>s.trim()\<close> removes white space and line terminators from both ends: the code
  units TAB, LF, VT, FF, CR, SP, NBSP, U+1680, U+2000 to U+200A, U+2028, U+2029, U+202F,
  U+205F, U+3000 and U+FEFF, which are also the ones \<^verbatim>\<open>\s\<close> matches.
\<close>

definition isWhiteSpace :: "jschar \<Rightarrow> bool" where
  "isWhiteSpace c =
     (c \<in> {9, 10, 11, 12, 13, 32, 160, 5760, 8232, 8233, 8239, 8287, 12288, 65279}
      \<or> (8192 \<le> c \<and> c \<le> 8202))"

definition trim :: "jsstring \<Rightarrow> jsstring" where
  "trim s = rev (dropWhile isWhiteSpace (rev (dropWhile isWhiteSpace s)))"

section \<open>The chunk minimizer (utils.ts)\<close>

text \<open>
  \<^verbatim>\<open>minimize(theString, delim, maxSize)\<close>. The source is a recursive function with no
  guard on \<open>maxSize\<close>; a call whose recursion never ends has the value \<open>None\<close>.
  The \<^verbatim>\<open>try\<close>/\<^verbatim>\<open>catch\<close> around \<^verbatim>\<open>lastIndexOf\<close> turns the result -1 into
  \<open>maxSize\<close>.
\<close>

partial_function (option) minimize :: "'a list \<Rightarrow> 'a list \<Rightarrow> int \<Rightarrow> 'a list list option" where
  "minimize theString delim maxSize =
     (let s = (if startsWith theString delim
               then substring_from theString (int (length delim)) else theString)
      in if int (length s) > maxSize
         then (let i = lastIndexOf s delim maxSize;
                   idx = (if i = - 1 then maxSize else i)
               in do { rest \<leftarrow> minimize (substring_from s idx) delim maxSize;
                       Some (substring_to s idx # rest) })
         else Some [s])"

declare minimize.simps [code]

section \<open>Regular expressions\<close>

text \<open>
  The patterns of this program are built from literal characters, \<^verbatim>\<open>.\<close>, the classes
  \<^verbatim>\<open>[a-z]\<close> and \<^verbatim>\<open>\d\<close>, sequence, alternation, capturing groups, lookahead
  \<^verbatim>\<open>(?=r)\<close>, lookbehind \<^verbatim>\<open>(?<=r)\<close> and negative lookbehind \<^verbatim>\<open>(?<!r)\<close>. A
  pattern is kept as its syntax tree; a compiled \<^verbatim>\<open>RegExp\<close> is the tree with its flags.
\<close>

datatype regex =
    Empty
  | Chr jschar
  | Dot
  | ClassRange jschar jschar
  | Seq regex regex
  | Alt regex regex
  | Group regex
  | LookAhead regex
  | LookBehind regex
  | NegLookBehind regex

record RegExp =
  source :: regex
  flags :: string

definition ignoreCase :: "RegExp \<Rightarrow> bool" where
  "ignoreCase rx = (CHR ''i'' \<in> set (flags rx))"

fun nGroups :: "regex \<Rightarrow> nat" where
  "nGroups (Seq r1 r2) = nGroups r1 + nGroups r2"
| "nGroups (Alt r1 r2) = nGroups r1 + nGroups r2"
| "nGroups (Group r) = Suc (nGroups r)"
| "nGroups (LookAhead r) = nGroups r"
| "nGroups (LookBehind r) = nGroups r"
| "nGroups (NegLookBehind r) = nGroups r"
| "nGroups _ = 0"

text \<open>
  Case-insensitive comparison goes through \<^verbatim>\<open>Canonicalize\<close>, upper-casing of one code
  unit. Only its action on ASCII letters is modelled. The literals of this program's
  patterns are punctuation marks, digits and ASCII letters; no other code unit is
  canonicalized to one of those (a non-ASCII code unit whose upper case is ASCII is left
  unchanged by \<^verbatim>\<open>Canonicalize\<close>), so every comparison made here has the outcome it has
  in the language.
\<close>

definition canonicalize :: "bool \<Rightarrow> jschar \<Rightarrow> jschar" where
  "canonicalize ic ch = (if ic \<and> 97 \<le> ch \<and> ch \<le> 122 then ch - 32 else ch)"

definition isLineTerminator :: "jschar \<Rightarrow> bool" where
  "isLineTerminator ch = (ch = 10 \<or> ch = 13 \<or> ch = 8232 \<or> ch = 8233)"

type_synonym captures = "jsstring option list"

text \<open>
  A character-set matcher consumes one code unit: the one at \<open>x\<close> when matching
  forward, the one before \<open>x\<close> when matching backward (inside a lookbehind).
\<close>

definition charSetMatcher ::
  "jsstring \<Rightarrow> bool \<Rightarrow> (jschar \<Rightarrow> bool) \<Rightarrow> nat \<Rightarrow> (nat \<times> captures) list" where
  "charSetMatcher S forward A x =
     (if forward
      then (if x < length S \<and> A (S ! x) then [(x + 1, [])] else [])
      else (if 0 < x \<and> x \<le> length S \<and> A (S ! (x - 1)) then [(x - 1, [])] else []))"

text \<open>
  \<open>rmatch ic S fw r x\<close> lists, in the order backtracking tries them, the ways \<open>r\<close>
  matches \<open>S\<close> from index \<open>x\<close>: the index reached and the captures of the groups of
  \<open>r\<close>, \<open>None\<close> for a group that took no part (\<^verbatim>\<open>undefined\<close>). The patterns have no
  quantifier, so the list is finite. A sequence is matched right to left when matching
  backward.
\<close>

fun rmatch :: "bool \<Rightarrow> jsstring \<Rightarrow> bool \<Rightarrow> regex \<Rightarrow> nat \<Rightarrow> (nat \<times> captures) list" where
  "rmatch ic S fw Empty x = [(x, [])]"
| "rmatch ic S fw (Chr c) x =
     charSetMatcher S fw (\<lambda>ch. canonicalize ic ch = canonicalize ic c) x"
| "rmatch ic S fw Dot x = charSetMatcher S fw (\<lambda>ch. \<not> isLineTerminator ch) x"
| "rmatch ic S fw (ClassRange a b) x =
     charSetMatcher S fw
       (\<lambda>ch. \<exists>m \<in> set [a..<Suc b]. canonicalize ic m = canonicalize ic ch) x"
| "rmatch ic S fw (Seq r1 r2) x =
     (if fw
      then concat (map (\<lambda>(y, c1). map (\<lambda>(z, c2). (z, c1 @ c2)) (rmatch ic S fw r2 y))
                       (rmatch ic S fw r1 x))
      else concat (map (\<lambda>(y, c2). map (\<lambda>(z, c1). (z, c1 @ c2)) (rmatch ic S fw r1 y))
                       (rmatch ic S fw r2 x)))"
| "rmatch ic S fw (Alt r1 r2) x =
     map (\<lambda>(y, c). (y, c @ replicate (nGroups r2) None)) (rmatch ic S fw r1 x) @
     map (\<lambda>(y, c). (y, replicate (nGroups r1) None @ c)) (rmatch ic S fw r2 x)"
| "rmatch ic S fw (Group r) x =
     map (\<lambda>(y, c). (y, Some (if fw then take (y - x) (drop x S)
                               else take (x - y) (drop y S)) # c))
         (rmatch ic S fw r x)"
| "rmatch ic S fw (LookAhead r) x =
     (case rmatch ic S True r x of [] \<Rightarrow> [] | (y, c) # _ \<Rightarrow> [(x, c)])"
| "rmatch ic S fw (LookBehind r) x =
     (case rmatch ic S False r x of [] \<Rightarrow> [] | (y, c) # _ \<Rightarrow> [(x, c)])"
| "rmatch ic S fw (NegLookBehind r) x =
     (case rmatch ic S False r x of [] \<Rightarrow> [(x, replicate (nGroups r) None)] | _ \<Rightarrow> [])"

text \<open>A match attempt at exactly index \<open>q\<close>: the first way, if there is one.\<close>

definition exec_at :: "RegExp \<Rightarrow> jsstring \<Rightarrow> nat \<Rightarrow> (nat \<times> captures) option" where
  "exec_at rx S q =
     (case rmatch (ignoreCase rx) S True (source rx) q of [] \<Rightarrow> None | m # _ \<Rightarrow> Some m)"

text \<open>A forward match ends at or after its start and inside the string.\<close>

lemma rmatch_range:
  "(e, c) \<in> set (rmatch ic S fw r x) \<Longrightarrow>
     (if fw then x \<le> e \<and> (x \<le> length S \<longrightarrow> e \<le> length S) else e \<le> x)"
proof (induction r arbitrary: x e c fw)
  case (Seq r1 r2)
  then show ?case by (fastforce split: if_splits)
qed (auto simp: charSetMatcher_def split: if_splits list.splits)

lemma exec_at_range:
  "exec_at rx S q = Some (e, c) \<Longrightarrow> q \<le> e \<and> (q \<le> length S \<longrightarrow> e \<le> length S)"
  using rmatch_range [of e c "ignoreCase rx" S True "source rx" q]
  by (auto simp: exec_at_def split: list.splits)

text \<open>
  \<^verbatim>\<open>RegExpBuiltinExec\<close> of a global, non-sticky expression: the search starts at
  \<open>lastIndex\<close>, moves one index forward after each failed attempt and fails beyond the
  end of the string. The result is the index of the match, its end and its captures.
\<close>

function RegExpBuiltinExec :: "RegExp \<Rightarrow> jsstring \<Rightarrow> nat \<Rightarrow> (nat \<times> nat \<times> captures) option" where
  "RegExpBuiltinExec rx S lastIndex =
     (if lastIndex > length S then None
      else case exec_at rx S lastIndex of
             None \<Rightarrow> RegExpBuiltinExec rx S (lastIndex + 1)
           | Some (e, caps) \<Rightarrow> Some (lastIndex, e, caps))"
  by pat_completeness auto
termination
  by (relation "measure (\<lambda>(rx, S, lastIndex). Suc (length S) - lastIndex)") auto

declare RegExpBuiltinExec.simps [simp del]

lemma RegExpBuiltinExec_range:
  "RegExpBuiltinExec rx S i = Some (p, e, c) \<Longrightarrow> i \<le> p \<and> p \<le> e \<and> e \<le> length S"
proof (induction rx S i rule: RegExpBuiltinExec.induct)
  case (1 rx S lastIndex)
  then show ?case
    by (subst (asm) (2) RegExpBuiltinExec.simps)
      (auto split: if_splits option.splits dest: exec_at_range)
qed

text \<open>
  \<^verbatim>\<open>S.replace(rx, repl)\<close> for a global \<open>rx\<close> and a replacement without \<^verbatim>\<open>$\<close>
  patterns (the replacements of this program are \<^verbatim>\<open>" "\<close>, \<^verbatim>\<open>""\<close> and
  \<^verbatim>\<open>"Esquire"\<close>): matches are collected from \<open>lastIndex\<close> 0, an empty match moves
  \<open>lastIndex\<close> one index forward, and each match at or after \<open>nextSourcePosition\<close>
  contributes the text skipped since the previous match and the replacement.
\<close>

function replace_loop :: "RegExp \<Rightarrow> jsstring \<Rightarrow> jsstring \<Rightarrow> nat \<Rightarrow> nat \<Rightarrow> jsstring" where
  "replace_loop rx S rp lastIndex nextSourcePosition =
     (case RegExpBuiltinExec rx S lastIndex of
        None \<Rightarrow> drop nextSourcePosition S
      | Some (position, e, caps) \<Rightarrow>
          (if position \<ge> nextSourcePosition
           then take (position - nextSourcePosition) (drop nextSourcePosition S) @ rp @
                replace_loop rx S rp (if e = position then e + 1 else e) e
           else replace_loop rx S rp (if e = position then e + 1 else e) nextSourcePosition))"
  by pat_completeness auto
termination
proof (relation "measure (\<lambda>(rx, S, rp, lastIndex, nsp). Suc (length S) - lastIndex)")
  show "wf (measure (\<lambda>(rx, S, rp, lastIndex, nsp). Suc (length S) - lastIndex))" by simp
qed (auto dest!: RegExpBuiltinExec_range)

declare replace_loop.simps [simp del]

definition replace_global :: "jsstring \<Rightarrow> RegExp \<Rightarrow> jsstring \<Rightarrow> jsstring" where
  "replace_global S rx rp = replace_loop rx S rp 0 0"

text \<open>
  \<^verbatim>\<open>S.split(rx)\<close> without a limit. At each index \<open>q\<close> the expression is tried at
  exactly \<open>q\<close>; a match ending at \<open>e \<noteq> p\<close> appends the text from \<open>p\<close> to \<open>q\<close> and
  then the value of every capturing group of the expression, \<^verbatim>\<open>undefined\<close> (\<open>None\<close>)
  for a group that took no part in the match.
\<close>

function split_loop :: "RegExp \<Rightarrow> jsstring \<Rightarrow> nat \<Rightarrow> nat \<Rightarrow> jsstring option list" where
  "split_loop rx S p q =
     (if q < length S
      then (case exec_at rx S q of
              None \<Rightarrow> split_loop rx S p (q + 1)
            | Some (lastIndex, caps) \<Rightarrow>
                (let e = min lastIndex (length S)
                 in if e = p then split_loop rx S p (q + 1)
                    else Some (take (q - p) (drop p S)) # caps @ split_loop rx S e e))
      else [Some (drop p S)])"
  by pat_completeness auto
termination
proof (relation "measure (\<lambda>(rx, S, p, q). 2 * (length S - q) + (if p = q then 0 else 1))")
  show "wf (measure (\<lambda>(rx, S, p, q). 2 * (length S - q) + (if p = q then 0 else 1)))" by simp
qed (auto dest!: exec_at_range simp: min_def split: if_splits)

declare split_loop.simps [simp del]

definition js_split :: "jsstring \<Rightarrow> RegExp \<Rightarrow> jsstring option list" where
  "js_split S rx =
     (if S = [] then (case exec_at rx S 0 of Some z \<Rightarrow> [] | None \<Rightarrow> [Some S])
      else split_loop rx S 0 0)"

section \<open>Pattern builder, substitution processors and tokenizer (tokenizer/core.ts)\<close>

text \<open>
  \<^verbatim>\<open>escapeRegExp\<close> makes its argument a pattern that matches it literally.
  \<^verbatim>\<open>alts.join("|")\<close> is the alternation of the alternatives in order; the empty
  pattern matches the empty string.
\<close>

definition escapeRegExp :: "jsstring \<Rightarrow> regex" where
  "escapeRegExp s = foldr (\<lambda>c r. Seq (Chr c) r) s Empty"

fun join_alt :: "regex list \<Rightarrow> regex" where
  "join_alt [] = Empty"
| "join_alt [r] = r"
| "join_alt (r # rs) = Alt r (join_alt rs)"

definition RegexBuilder :: "jsstring list \<Rightarrow> (regex \<Rightarrow> regex) \<Rightarrow> string \<Rightarrow> RegExp" where
  "RegexBuilder patternArgs patternFunc fl =
     \<lparr>source = join_alt (map (\<lambda>arg. patternFunc (escapeRegExp arg)) patternArgs),
      flags = fl\<rparr>"

record PreProcessorRegex =
  regexes :: "RegExp list"
  repl :: jsstring

definition new_PreProcessorRegex ::
  "jsstring list \<Rightarrow> (regex \<Rightarrow> regex) \<Rightarrow> jsstring \<Rightarrow> string \<Rightarrow> PreProcessorRegex" where
  "new_PreProcessorRegex searchArgs searchFunc rp fl =
     \<lparr>regexes = map (\<lambda>arg. RegexBuilder [arg] searchFunc fl) searchArgs, repl = rp\<rparr>"

definition PreProcessorRegex_run :: "PreProcessorRegex \<Rightarrow> jsstring \<Rightarrow> jsstring" where
  "PreProcessorRegex_run pp txt =
     foldl (\<lambda>txt regex.
              let fl = (if CHR ''g'' \<in> set (flags regex) then flags regex
                        else flags regex @ ''g'');
                  globalRegex = \<lparr>source = source regex, flags = fl\<rparr>
              in replace_global txt globalRegex (repl pp))
           txt (regexes pp)"

definition new_PreProcessorSub ::
  "(jsstring \<times> jsstring) list \<Rightarrow> bool \<Rightarrow> PreProcessorRegex list" where
  "new_PreProcessorSub subPairs ignCase =
     map (\<lambda>(pattern, rp).
            new_PreProcessorRegex [pattern] (\<lambda>x. x) rp (if ignCase then ''i'' else []))
         subPairs"

definition PreProcessorSub_run :: "PreProcessorRegex list \<Rightarrow> jsstring \<Rightarrow> jsstring" where
  "PreProcessorSub_run pps txt = foldl (\<lambda>txt pp. PreProcessorRegex_run pp txt) txt pps"

text \<open>
  The tokenizer holds the expressions its case functions return and its flags;
  \<^verbatim>\<open>combineRegex\<close> wraps the source of each in a capturing group and joins the groups
  by alternation, and \<^verbatim>\<open>run\<close> splits the text on the result.
\<close>

record Tokenizer =
  regexFuncs :: "RegExp list"
  tokenizer_flags :: string

definition combineRegex :: "Tokenizer \<Rightarrow> RegExp" where
  "combineRegex tk =
     \<lparr>source = join_alt (map (\<lambda>alt. Group (source alt)) (regexFuncs tk)),
      flags = tokenizer_flags tk\<rparr>"

definition Tokenizer_run :: "Tokenizer \<Rightarrow> jsstring \<Rightarrow> jsstring option list" where
  "Tokenizer_run tk txt = js_split txt (combineRegex tk)"

section \<open>Symbol tables (tokenizer/symbols.ts)\<close>

definition ABBREVIATIONS :: "jsstring list" where
  "ABBREVIATIONS =
     map js [''dr'', ''jr'', ''mr'', ''mrs'', ''ms'', ''msgr'', ''prof'', ''sr'', ''st'']"

definition SUB_PAIRS :: "(jsstring \<times> jsstring) list" where
  "SUB_PAIRS = [(js ''Esq.'', js ''Esquire'')]"

text \<open>
  \<open>ALL_PUNC\<close>, in the order of the source: the ASCII marks \<^verbatim>\<open>? ! . , ( ) [ ] ; :\<close>, the
  fullwidth question and exclamation marks (65311, 65281), the inverted marks (161,
  191), the ellipses (8230, 8229), the Arabic comma (1548), the em dash (8212), the
  ideographic full stop and comma (12290, 12289), the fullwidth comma and colon (65292,
  65306) and the newline (10).
\<close>

definition ALL_PUNC :: jsstring where
  "ALL_PUNC = [63, 33, 65311, 65281, 46, 44, 161, 40, 41, 91, 93, 191, 8230, 8229, 1548,
               59, 58, 8212, 12290, 65292, 12289, 65306, 10]"

definition TONE_MARKS :: jsstring where
  "TONE_MARKS = [63, 33, 65311, 65281]"

definition PERIOD_COMMA :: jsstring where
  "PERIOD_COMMA = [46, 44]"

definition COLON :: jsstring where
  "COLON = [58]"

section \<open>Tokenizer cases and pre-processors\<close>

text \<open>\<^verbatim>\<open>s.split("")\<close>: the code units of \<open>s\<close>, each as a string.\<close>

definition split_chars :: "jsstring \<Rightarrow> jsstring list" where
  "split_chars s = map (\<lambda>c. [c]) s"

text \<open>The elements of \<^verbatim>\<open>new Set(xs)\<close> in insertion order: first occurrences.\<close>

definition set_elements :: "'a list \<Rightarrow> 'a list" where
  "set_elements xs = rev (remdups (rev xs))"

text \<open>
  The tokenizer case \<^verbatim>\<open>toneMarks\<close>, template \<^verbatim>\<open>(?<=x).\<close>; the pre-processor of the
  same name is \<open>toneMarks\<close> below.
\<close>

definition case_toneMarks :: RegExp where
  "case_toneMarks = RegexBuilder (split_chars TONE_MARKS) (\<lambda>x. Seq (LookBehind x) Dot) []"

text \<open>Template \<^verbatim>\<open>(?<!\.[a-z])x \<close> (the pattern ends with a space).\<close>

definition periodComma :: RegExp where
  "periodComma = RegexBuilder (split_chars PERIOD_COMMA)
     (\<lambda>x. Seq (NegLookBehind (Seq (Chr 46) (ClassRange 97 122))) (Seq x (Chr 32))) []"

text \<open>Template \<^verbatim>\<open>(?<!\d)x\<close>.\<close>

definition colon :: RegExp where
  "colon = RegexBuilder (split_chars COLON) (\<lambda>x. Seq (NegLookBehind (ClassRange 48 57)) x) []"

definition otherPunctuation :: RegExp where
  "otherPunctuation =
     (let puncSet = set_elements (split_chars ALL_PUNC);
          toneMarksSet = set_elements (split_chars TONE_MARKS);
          periodCommaSet = set_elements (split_chars PERIOD_COMMA);
          colonSet = set_elements (split_chars COLON);
          punc = filter (\<lambda>x. x \<notin> set toneMarksSet \<and> x \<notin> set periodCommaSet
                              \<and> x \<notin> set colonSet) puncSet
      in RegexBuilder punc (\<lambda>x. x) [])"

text \<open>The pre-processors: templates \<^verbatim>\<open>(?<=x)\<close>, \<^verbatim>\<open>x\n\<close>, \<^verbatim>\<open>(?<=x)(?=\.).\<close> and \<^verbatim>\<open>x\<close>.\<close>

definition toneMarks :: "jsstring \<Rightarrow> jsstring" where
  "toneMarks txt =
     PreProcessorRegex_run
       (new_PreProcessorRegex (split_chars TONE_MARKS) (\<lambda>x. LookBehind x) (js '' '') [])
       txt"

definition endOfLine :: "jsstring \<Rightarrow> jsstring" where
  "endOfLine txt =
     PreProcessorRegex_run
       (new_PreProcessorRegex [js ''-''] (\<lambda>x. Seq x (Chr 10)) [] []) txt"

definition abbreviations :: "jsstring \<Rightarrow> jsstring" where
  "abbreviations txt =
     PreProcessorRegex_run
       (new_PreProcessorRegex ABBREVIATIONS
          (\<lambda>x. Seq (LookBehind x) (Seq (LookAhead (Chr 46)) Dot)) [] ''i'') txt"

definition wordSub :: "jsstring \<Rightarrow> jsstring" where
  "wordSub txt = PreProcessorSub_run (new_PreProcessorSub SUB_PAIRS True) txt"

section \<open>Token cleaning (utils.ts)\<close>

text \<open>
  \<^verbatim>\<open>_ALL_PUNC_OR_SPACE\<close> is \<^verbatim>\<open>^[...\s]*$\<close> over the escaped characters of
  \<open>ALL_PUNC\<close>, without flags: it accepts the strings all of whose code units are in
  \<open>ALL_PUNC\<close> or white space. Calling \<^verbatim>\<open>trim\<close> on \<^verbatim>\<open>undefined\<close> throws a
  \<^verbatim>\<open>TypeError\<close>.
\<close>

datatype error = TypeError | NoTextToSend | gTTSError

definition ALL_PUNC_OR_SPACE :: "jsstring \<Rightarrow> bool" where
  "ALL_PUNC_OR_SPACE t = list_all (\<lambda>c. c \<in> set ALL_PUNC \<or> isWhiteSpace c) t"

definition cleanTokens :: "jsstring option list \<Rightarrow> error + jsstring list" where
  "cleanTokens tokens =
     (case those tokens of
        None \<Rightarrow> Inl TypeError
      | Some ts \<Rightarrow> Inr (filter (\<lambda>t. t \<noteq> [] \<and> \<not> ALL_PUNC_OR_SPACE t) (map trim ts)))"

definition translateUrl :: "jsstring \<Rightarrow> jsstring \<Rightarrow> jsstring" where
  "translateUrl tld_arg path = js ''https://translate.google.'' @ tld_arg @ js ''/'' @ path"

section \<open>The engine (tts.ts)\<close>

text \<open>
  The fields of a \<^verbatim>\<open>gTTS\<close> instance that segmentation and request preparation read
  (\<^verbatim>\<open>speed\<close> is \<^verbatim>\<open>slow\<close>). A tokenizer function returns an array whose elements
  may be \<^verbatim>\<open>undefined\<close>.
\<close>

record gTTS =
  the_text :: jsstring
  tld :: jsstring
  lang :: jsstring
  slow :: bool
  preProcessorFuncs :: "(jsstring \<Rightarrow> jsstring) list"
  tokenizerFunc :: "jsstring \<Rightarrow> jsstring option list"

definition GOOGLE_TTS_MAX_CHARS :: int where
  "GOOGLE_TTS_MAX_CHARS = 100"

definition default_tokenizer :: Tokenizer where
  "default_tokenizer =
     \<lparr>regexFuncs = [case_toneMarks, periodComma, colon, otherPunctuation],
      tokenizer_flags = ''i''\<rparr>"

text \<open>The instance the constructor builds when only the text is given.\<close>

definition default_gTTS :: "jsstring \<Rightarrow> gTTS" where
  "default_gTTS txt =
     \<lparr>the_text = txt, tld = js ''com'', lang = js ''en'', slow = False,
      preProcessorFuncs = [toneMarks, endOfLine, abbreviations, wordSub],
      tokenizerFunc = Tokenizer_run default_tokenizer\<rparr>"

text \<open>The loop of \<^verbatim>\<open>tokenize\<close> that pushes the pieces of each cleaned token.\<close>

fun minimize_each :: "jsstring list \<Rightarrow> jsstring list option" where
  "minimize_each [] = Some []"
| "minimize_each (t # ts) =
     do { pieces \<leftarrow> minimize t (js '' '') GOOGLE_TTS_MAX_CHARS;
          others \<leftarrow> minimize_each ts;
          Some (pieces @ others) }"

text \<open>
  \<^verbatim>\<open>gTTS.tokenize\<close>. The result is \<open>None\<close> if a call of \<open>minimize\<close> does not return,
  \<open>Some (Inl err)\<close> if an error is thrown and \<open>Some (Inr parts)\<close> if \<open>parts\<close> is
  returned. The last step is \<^verbatim>\<open>minTokens.filter(t => t)\<close>.
\<close>

definition tokenize :: "gTTS \<Rightarrow> jsstring \<Rightarrow> (error + jsstring list) option" where
  "tokenize tts text0 =
     (let text1 = trim text0;
          text2 = foldl (\<lambda>t pp. pp t) text1 (preProcessorFuncs tts)
      in if int (length text2) \<le> GOOGLE_TTS_MAX_CHARS then Some (cleanTokens [Some text2])
         else (case cleanTokens (tokenizerFunc tts text2) of
                 Inl err \<Rightarrow> Some (Inl err)
               | Inr cleanedTokens \<Rightarrow>
                   do { minTokens \<leftarrow> minimize_each cleanedTokens;
                        Some (Inr (filter (\<lambda>t. t \<noteq> []) minTokens)) }))"

text \<open>
  \<^verbatim>\<open>packageRpc\<close> serializes the part, the language and the speed with
  \<^verbatim>\<open>JSON.stringify\<close> and \<^verbatim>\<open>encodeURIComponent\<close>; the serialization is the parameter
  \<open>encode\<close>.
\<close>

record request =
  url :: jsstring
  body :: jsstring

definition packageRpc ::
  "(jsstring \<Rightarrow> jsstring \<Rightarrow> bool \<Rightarrow> jsstring) \<Rightarrow> gTTS \<Rightarrow> jsstring \<Rightarrow> jsstring" where
  "packageRpc encode tts part = js ''f.req='' @ encode part (lang tts) (slow tts) @ js ''&''"

definition prepareRequests ::
  "(jsstring \<Rightarrow> jsstring \<Rightarrow> bool \<Rightarrow> jsstring) \<Rightarrow> gTTS \<Rightarrow> (error + request list) option" where
  "prepareRequests encode tts =
     (let u = translateUrl (tld tts) (js ''_/TranslateWebserverUi/data/batchexecute'')
      in case tokenize tts (the_text tts) of
           None \<Rightarrow> None
         | Some (Inl err) \<Rightarrow> Some (Inl err)
         | Some (Inr textParts) \<Rightarrow>
             (if length textParts = 0 then Some (Inl NoTextToSend)
              else Some (Inr (map (\<lambda>part. \<lparr>url = u, body = packageRpc encode tts part\<rparr>)
                                  textParts))))"

text \<open>
  \<^verbatim>\<open>stream\<close> prepares the requests and then posts them in order. The backend is the
  parameter \<open>fetch\<close>: the audio buffers decoded from the response to a request and
  whether the exchange succeeded; a failure ends the stream with a \<^verbatim>\<open>gTTSError\<close>. The
  result lists the buffers yielded, the error thrown, if any, and the requests issued.
\<close>

fun post_all ::
  "(request \<Rightarrow> 'b list \<times> bool) \<Rightarrow> request list \<Rightarrow> 'b list \<times> error option \<times> request list" where
  "post_all fetch [] = ([], None, [])"
| "post_all fetch (req # reqs) =
     (case fetch req of
        (bufs, False) \<Rightarrow> (bufs, Some gTTSError, [req])
      | (bufs, True) \<Rightarrow>
          (case post_all fetch reqs of
             (later, err, issued) \<Rightarrow> (bufs @ later, err, req # issued)))"

definition stream ::
  "(request \<Rightarrow> 'b list \<times> bool) \<Rightarrow> (jsstring \<Rightarrow> jsstring \<Rightarrow> bool \<Rightarrow> jsstring) \<Rightarrow> gTTS
     \<Rightarrow> ('b list \<times> error option \<times> request list) option" where
  "stream fetch encode tts =
     (case prepareRequests encode tts of
        None \<Rightarrow> None
      | Some (Inl err) \<Rightarrow> Some ([], Some err, [])
      | Some (Inr requests) \<Rightarrow> Some (post_all fetch requests))"

section \<open>Properties of the minimizer\<close>

lemma find_Some_mem: "find P xs = Some x \<Longrightarrow> x \<in> set xs \<and> P x"
  by (induction xs) (auto split: if_splits)

lemma lastIndexOf_found:
  assumes "lastIndexOf s d pos \<noteq> - 1"
  shows "0 \<le> lastIndexOf s d pos"
    and "lastIndexOf s d pos \<le> int (min (nat pos) (length s))"
    and "take (length d) (drop (nat (lastIndexOf s d pos)) s) = d"
proof -
  let ?start = "min (nat pos) (length s)"
  let ?P = "\<lambda>i. take (length d) (drop i s) = d"
  obtain i where f: "find ?P (rev [0..<Suc ?start]) = Some i"
    using assms by (auto simp: lastIndexOf_def Let_def split: option.splits)
  then have r: "lastIndexOf s d pos = int i"
    by (simp add: lastIndexOf_def Let_def)
  from find_Some_mem [OF f] have "i \<le> ?start" and "?P i" by auto
  then show "0 \<le> lastIndexOf s d pos"
    and "lastIndexOf s d pos \<le> int (min (nat pos) (length s))"
    and "take (length d) (drop (nat (lastIndexOf s d pos)) s) = d"
    using r by auto
qed

lemma lastIndexOf_empty: "lastIndexOf s [] pos = int (min (nat pos) (length s))"
  by (simp add: lastIndexOf_def Let_def)

lemma lastIndexOf_not_at_0:
  assumes "\<not> startsWith s d" and "pos \<le> 0"
  shows "lastIndexOf s d pos = - 1"
  using assms by (simp add: lastIndexOf_def startsWith_def Let_def)

text \<open>
  For a positive bound the recursion ends and every piece obeys the bound. Each call
  recurses on a strictly shorter string: a cut at index 0 only happens when the
  stripped string still starts with the delimiter, and then the strip of this call has
  already removed one occurrence.
\<close>

lemma minimize_total_bounded:
  assumes "0 < m"
  shows "\<exists>ys. minimize s d m = Some ys \<and> (\<forall>y \<in> set ys. int (length y) \<le> m)"
proof (induction "length s" arbitrary: s rule: less_induct)
  case less
  define s' where "s' = (if startsWith s d then substring_from s (int (length d)) else s)"
  have len_s': "length s' \<le> length s"
    by (simp add: s'_def substring_from_def)
  show ?case
  proof (cases "int (length s') > m")
    case False
    then have "minimize s d m = Some [s']"
      by (subst minimize.simps) (simp add: s'_def Let_def)
    with False show ?thesis by simp
  next
    case True
    define i where "i = lastIndexOf s' d m"
    define idx where "idx = (if i = - 1 then m else i)"
    have unfold: "minimize s d m =
        do { rest \<leftarrow> minimize (substring_from s' idx) d m; Some (substring_to s' idx # rest) }"
      using True by (subst minimize.simps) (simp add: s'_def Let_def i_def idx_def)
    have idx_bounds: "0 \<le> idx \<and> idx \<le> m"
    proof (cases "i = - 1")
      case True
      then show ?thesis using assms by (simp add: idx_def)
    next
      case False
      then have "lastIndexOf s' d m \<noteq> - 1" by (simp add: i_def)
      from lastIndexOf_found(1,2) [OF this] show ?thesis
        using False assms by (simp add: idx_def i_def)
    qed
    have shorter: "length (substring_from s' idx) < length s"
    proof (cases "0 < idx")
      case True
      then have "length (substring_from s' idx) < length s'"
        using \<open>int (length s') > m\<close> assms by (simp add: substring_from_def)
      with len_s' show ?thesis by simp
    next
      case False
      with idx_bounds have idx0: "idx = 0" by simp
      with assms have ine: "i \<noteq> - 1" and i0: "i = 0"
        by (auto simp: idx_def split: if_splits)
      have dne: "d \<noteq> []"
      proof
        assume "d = []"
        then have "i = int (min (nat m) (length s'))"
          by (simp add: i_def lastIndexOf_empty)
        with i0 assms True show False by simp
      qed
      from ine have "lastIndexOf s' d m \<noteq> - 1" by (simp add: i_def)
      from lastIndexOf_found(3) [OF this] i0 have st: "startsWith s' d"
        by (simp add: i_def startsWith_def)
      have "startsWith s d"
      proof (rule ccontr)
        assume "\<not> startsWith s d"
        then have "s' = s" by (simp add: s'_def)
        with st \<open>\<not> startsWith s d\<close> show False by simp
      qed
      then have eq: "s' = drop (length d) s" and tk: "take (length d) s = d"
        by (auto simp: s'_def substring_from_def startsWith_def)
      from arg_cong [OF tk, of length] have "length d \<le> length s" by simp
      with dne eq have "length s' < length s" by (cases d) auto
      then show ?thesis by (simp add: substring_from_def)
    qed
    from less [OF shorter] obtain rest
      where rest: "minimize (substring_from s' idx) d m = Some rest"
        and rest_ok: "\<forall>y \<in> set rest. int (length y) \<le> m"
      by blast
    have "int (length (substring_to s' idx)) \<le> m"
      using idx_bounds by (auto simp: substring_to_def min_def)
    with unfold rest rest_ok show ?thesis by simp
  qed
qed

text \<open>
  A non-positive bound is not checked anywhere: once the string no longer starts with
  the delimiter and is longer than the bound, the call recurses on the same string.
\<close>

lemma minimize_diverges:
  assumes "m \<le> 0" and "\<not> startsWith s d" and "m < int (length s)"
  shows "minimize s d m = None"
proof (rule ccontr)
  let ?stuck = "\<lambda>(a :: 'a list) b (c :: int). c \<le> 0 \<and> \<not> startsWith a b \<and> c < int (length a)"
  assume "minimize s d m \<noteq> None"
  then obtain ys where "minimize s d m = Some ys" by blast
  then have "\<not> ?stuck s d m"
  proof (rule minimize.raw_induct [rotated 1, where P = "\<lambda>a b c r. \<not> ?stuck a b c"])
    fix f :: "'a list \<Rightarrow> 'a list \<Rightarrow> int \<Rightarrow> 'a list list option"
      and a b :: "'a list" and c :: int and r
    assume IH: "\<And>a b c r. f a b c = Some r \<Longrightarrow> \<not> ?stuck a b c"
      and step: "(let s = (if startsWith a b then substring_from a (int (length b)) else a)
          in if int (length s) > c
             then (let i = lastIndexOf s b c; idx = (if i = - 1 then c else i)
                   in do { rest \<leftarrow> f (substring_from s idx) b c;
                           Some (substring_to s idx # rest) })
             else Some [s]) = Some r"
    show "\<not> ?stuck a b c"
    proof
      assume c: "?stuck a b c"
      then have "lastIndexOf a b c = - 1"
        by (simp add: lastIndexOf_not_at_0)
      with c step obtain rest where "f a b c = Some rest"
        by (auto simp: Let_def substring_from_def split: bind_splits)
      from IH [OF this] c show False by simp
    qed
  qed
  with assms show False by simp
qed

section \<open>Evaluation of the patterns\<close>

text \<open>
  The two character classes of the patterns, \<^verbatim>\<open>[a-z]\<close> under the flag \<^verbatim>\<open>i\<close> and
  \<^verbatim>\<open>\d\<close>, as conditions on the code unit; with them the simplifier evaluates the
  tokenizer on a given text.
\<close>

lemma set_upt_Suc: "set [a..<Suc b] = {a..b}"
  by (simp only: set_upt atLeastLessThanSuc_atLeastAtMost)

lemma rmatch_az:
  "rmatch True S fw (ClassRange 97 122) x =
     charSetMatcher S fw (\<lambda>ch. (97 \<le> ch \<and> ch \<le> 122) \<or> (65 \<le> ch \<and> ch \<le> 90)) x"
proof -
  have "(\<exists>m \<in> {97..122}. canonicalize True m = canonicalize True ch)
      \<longleftrightarrow> (97 \<le> ch \<and> ch \<le> 122) \<or> (65 \<le> ch \<and> ch \<le> 90)" for ch :: nat
  proof
    assume "\<exists>m \<in> {97..122}. canonicalize True m = canonicalize True ch"
    then show "(97 \<le> ch \<and> ch \<le> 122) \<or> (65 \<le> ch \<and> ch \<le> 90)"
      by (auto simp: canonicalize_def split: if_splits)
  next
    assume a: "(97 \<le> ch \<and> ch \<le> 122) \<or> (65 \<le> ch \<and> ch \<le> 90)"
    show "\<exists>m \<in> {97..122}. canonicalize True m = canonicalize True ch"
    proof (cases "97 \<le> ch \<and> ch \<le> 122")
      case True
      then show ?thesis by (intro bexI [of _ ch]) auto
    next
      case False
      with a show ?thesis by (intro bexI [of _ "ch + 32"]) (auto simp: canonicalize_def)
    qed
  qed
  then show ?thesis by (simp only: rmatch.simps set_upt_Suc)
qed

lemma rmatch_digit:
  "rmatch ic S fw (ClassRange 48 57) x = charSetMatcher S fw (\<lambda>ch. 48 \<le> ch \<and> ch \<le> 57) x"
proof -
  have "(\<exists>m \<in> {48..57}. canonicalize ic m = canonicalize ic ch)
      \<longleftrightarrow> (48 \<le> ch \<and> ch \<le> 57)" for ch :: nat
    by (auto simp: canonicalize_def split: if_splits)
  then show ?thesis by (simp only: rmatch.simps set_upt_Suc)
qed

lemmas tokenizer_eval = Tokenizer_run_def js_split_def split_loop.simps exec_at_def combineRegex_def
  default_tokenizer_def case_toneMarks_def periodComma_def colon_def
      otherPunctuation_def RegexBuilder_def escapeRegExp_def split_chars_def set_elements_def
      ALL_PUNC_def TONE_MARKS_def PERIOD_COMMA_def COLON_def Let_def
      ignoreCase_def charSetMatcher_def canonicalize_def isLineTerminator_def js_def
      rmatch_az rmatch_digit


lemma Tokenizer_run_a_comma_b:
  "Tokenizer_run default_tokenizer (js ''a, b'')
     = [Some (js ''a''), None, Some (js '', ''), None, None, Some (js ''b'')]"
  by (simp add: tokenizer_eval del: rmatch.simps(4))

section \<open>The substitution loop\<close>

text \<open>
  The substitution loop, one index at a time: beyond the end, after a failed attempt and
  after a match.
\<close>

lemma RegExpBuiltinExec_end:
  "length S < i \<Longrightarrow> RegExpBuiltinExec rx S i = None"
  by (subst RegExpBuiltinExec.simps) simp

lemma RegExpBuiltinExec_skip:
  "i \<le> length S \<Longrightarrow> exec_at rx S i = None \<Longrightarrow>
     RegExpBuiltinExec rx S i = RegExpBuiltinExec rx S (Suc i)"
  by (subst RegExpBuiltinExec.simps) simp

lemma RegExpBuiltinExec_hit:
  "i \<le> length S \<Longrightarrow> exec_at rx S i = Some (e, c) \<Longrightarrow>
     RegExpBuiltinExec rx S i = Some (i, e, c)"
  by (subst RegExpBuiltinExec.simps) simp

lemma replace_loop_end:
  "length S < i \<Longrightarrow> replace_loop rx S rp i nsp = drop nsp S"
  by (subst replace_loop.simps) (simp add: RegExpBuiltinExec_end)

lemma replace_loop_skip:
  "i \<le> length S \<Longrightarrow> exec_at rx S i = None \<Longrightarrow>
     replace_loop rx S rp i nsp = replace_loop rx S rp (Suc i) nsp"
  by (subst replace_loop.simps, subst (2) replace_loop.simps)
    (simp add: RegExpBuiltinExec_skip)

lemma replace_loop_hit:
  "i \<le> length S \<Longrightarrow> exec_at rx S i = Some (e, c) \<Longrightarrow> nsp \<le> i \<Longrightarrow>
     replace_loop rx S rp i nsp =
       take (i - nsp) (drop nsp S) @ rp @ replace_loop rx S rp (if e = i then e + 1 else e) e"
  by (subst replace_loop.simps) (simp add: RegExpBuiltinExec_hit)

text \<open>
  Global replacement of the lookbehind \<^verbatim>\<open>(?<=c)\<close> by \<open>rp\<close> inserts \<open>rp\<close> after
  every occurrence of \<open>c\<close>.
\<close>

definition insert_after :: "jschar \<Rightarrow> jsstring \<Rightarrow> jsstring \<Rightarrow> jsstring" where
  "insert_after c rp S = concat (map (\<lambda>ch. if ch = c then ch # rp else [ch]) S)"

lemma exec_at_lookbehind_char:
  "CHR ''i'' \<notin> set fl \<Longrightarrow>
   exec_at \<lparr>source = LookBehind (Seq (Chr c) Empty), flags = fl\<rparr> S i =
     (if 0 < i \<and> i \<le> length S \<and> S ! (i - 1) = c then Some (i, []) else None)"
  by (simp add: exec_at_def ignoreCase_def charSetMatcher_def canonicalize_def)

lemma replace_lookbehind_char_from:
  assumes fl: "CHR ''i'' \<notin> set fl"
  shows "j \<le> length S \<Longrightarrow> nsp \<le> j \<Longrightarrow>
     replace_loop \<lparr>source = LookBehind (Seq (Chr c) Empty), flags = fl\<rparr> S rp (Suc j) nsp =
       take (j - nsp) (drop nsp S) @ insert_after c rp (drop j S)"
proof (induction "length S - j" arbitrary: j nsp)
  case 0
  then have "j = length S" by simp
  then show ?case by (simp add: replace_loop_end insert_after_def)
next
  case (Suc n)
  let ?rx = "\<lparr>source = LookBehind (Seq (Chr c) Empty), flags = fl\<rparr>"
  from Suc.hyps(2) have j: "j < length S" and i: "Suc j \<le> length S" by simp_all
  then have dr: "drop j S = S ! j # drop (Suc j) S"
    by (simp add: Cons_nth_drop_Suc)
  have n: "n = length S - Suc j" using Suc.hyps(2) by simp
  have tk: "take (Suc j - nsp) (drop nsp S) = take (j - nsp) (drop nsp S) @ [S ! j]"
  proof -
    from Suc.prems j have "Suc j - nsp = Suc (j - nsp)" "j - nsp < length (drop nsp S)"
      by simp_all
    then show ?thesis
      using Suc.prems j by (simp add: take_Suc_conv_app_nth)
  qed
  show ?case
  proof (cases "S ! j = c")
    case True
    with i fl have ex: "exec_at ?rx S (Suc j) = Some (Suc j, [])"
      by (simp add: exec_at_lookbehind_char)
    have "replace_loop ?rx S rp (Suc (Suc j)) (Suc j) =
        take (Suc j - Suc j) (drop (Suc j) S) @ insert_after c rp (drop (Suc j) S)"
      using i by (intro Suc.hyps(1) [OF n]) simp_all
    then have next_eq: "replace_loop ?rx S rp (Suc (Suc j)) (Suc j) = insert_after c rp (drop (Suc j) S)"
      by simp
    from Suc.prems have "nsp \<le> Suc j" by simp
    from replace_loop_hit [OF i ex this, of rp]
    have "replace_loop ?rx S rp (Suc j) nsp =
        take (Suc j - nsp) (drop nsp S) @ rp @ insert_after c rp (drop (Suc j) S)"
      by (simp add: next_eq)
    with True show ?thesis by (simp add: tk dr insert_after_def)
  next
    case False
    with i fl have ex: "exec_at ?rx S (Suc j) = None"
      by (simp add: exec_at_lookbehind_char)
    have "replace_loop ?rx S rp (Suc (Suc j)) nsp =
        take (Suc j - nsp) (drop nsp S) @ insert_after c rp (drop (Suc j) S)"
      using i Suc.prems by (intro Suc.hyps(1) [OF n]) simp_all
    with replace_loop_skip [OF i ex, of rp nsp] False show ?thesis
      by (simp add: tk dr insert_after_def)
  qed
qed

lemma replace_lookbehind_char:
  assumes fl: "CHR ''i'' \<notin> set fl"
  shows "replace_global S \<lparr>source = LookBehind (Seq (Chr c) Empty), flags = fl\<rparr> rp = insert_after c rp S"
proof -
  let ?rx = "\<lparr>source = LookBehind (Seq (Chr c) Empty), flags = fl\<rparr>"
  have "exec_at ?rx S 0 = None" using fl by (simp add: exec_at_lookbehind_char)
  then have "replace_loop ?rx S rp 0 0 = replace_loop ?rx S rp (Suc 0) 0"
    by (intro replace_loop_skip) simp_all
  also have "\<dots> = take (0 - 0) (drop 0 S) @ insert_after c rp (drop 0 S)"
    by (intro replace_lookbehind_char_from [OF fl]) simp_all
  finally show ?thesis by (simp add: replace_global_def)
qed

lemma toneMarks_inserts:
  "toneMarks s = concat (map (\<lambda>ch. if ch \<in> set TONE_MARKS then [ch, 32] else [ch]) s)"
proof -
  have "toneMarks s =
      insert_after 65281 [32] (insert_after 65311 [32] (insert_after 33 [32] (insert_after 63 [32] s)))"
    by (simp add: toneMarks_def PreProcessorRegex_run_def new_PreProcessorRegex_def
        RegexBuilder_def escapeRegExp_def split_chars_def TONE_MARKS_def Let_def js_def
        replace_lookbehind_char)
  also have "\<dots> = concat (map (\<lambda>ch. if ch \<in> set TONE_MARKS then [ch, 32] else [ch]) s)"
    by (induction s) (auto simp: insert_after_def TONE_MARKS_def)
  finally show ?thesis .
qed

section \<open>The split loop\<close>

text \<open>\<^verbatim>\<open>tokens.join("")\<close>: an \<^verbatim>\<open>undefined\<close> element contributes the empty string.\<close>

definition join_tokens :: "jsstring option list \<Rightarrow> jsstring" where
  "join_tokens tokens = concat (map (\<lambda>t. case t of None \<Rightarrow> [] | Some s \<Rightarrow> s) tokens)"

lemma join_tokens_simps [simp]:
  "join_tokens [] = []"
  "join_tokens (Some s # ts) = s @ join_tokens ts"
  "join_tokens (None # ts) = join_tokens ts"
  "join_tokens (xs @ ys) = join_tokens xs @ join_tokens ys"
  "join_tokens (replicate n None) = []"
  by (simp_all add: join_tokens_def)

text \<open>
  A match of an alternation of capturing groups, none of which contains a group, has
  exactly one capture that is not \<^verbatim>\<open>undefined\<close>, the matched text; so the elements
  \<^verbatim>\<open>split\<close> returns add up to the text.
\<close>

lemma hd_mem: "y # ys = xs \<Longrightarrow> y \<in> set xs"
  by auto

lemma rmatch_captures_length:
  "(e, c) \<in> set (rmatch ic S fw r x) \<Longrightarrow> length c = nGroups r"
proof (induction r arbitrary: x e c fw)
  case (Seq r1 r2)
  then show ?case by (fastforce split: if_splits)
next
  case (LookAhead r)
  then show ?case by (auto split: list.splits dest!: hd_mem)
next
  case (LookBehind r)
  then show ?case by (auto split: list.splits dest!: hd_mem)
next
  case (NegLookBehind r)
  then show ?case by (auto split: list.splits)
qed (auto simp: charSetMatcher_def split: if_splits)

lemma exec_at_mem:
  "exec_at rx S q = Some m \<Longrightarrow> m \<in> set (rmatch (ignoreCase rx) S True (source rx) q)"
  by (auto simp: exec_at_def split: list.splits)

lemma rmatch_Group_capture:
  assumes "nGroups r = 0" and "(e, c) \<in> set (rmatch ic S True (Group r) x)"
  shows "c = [Some (take (e - x) (drop x S))]"
proof -
  from assms(2) obtain c' where "(e, c') \<in> set (rmatch ic S True r x)"
    and c: "c = Some (take (e - x) (drop x S)) # c'"
    by auto
  with rmatch_captures_length [of e c' ic S True r x] assms(1) show ?thesis by simp
qed

lemma grouped_alternatives_capture:
  assumes "\<forall>r \<in> set rs. nGroups r = 0"
    and "(e, c) \<in> set (rmatch ic S True (join_alt (map Group rs)) x)"
  shows "join_tokens c = take (e - x) (drop x S)"
  using assms
proof (induction rs arbitrary: c rule: join_alt.induct)
  case 1
  then show ?case by simp
next
  case (2 r)
  then have "nGroups r = 0" and "(e, c) \<in> set (rmatch ic S True (Group r) x)" by simp_all
  from rmatch_Group_capture [OF this] show ?case by simp
next
  case (3 r r' rs)
  let ?rest = "join_alt (map Group (r' # rs))"
  from "3.prems"(2)
  have "(e, c) \<in> set (rmatch ic S True (Alt (Group r) ?rest) x)" by simp
  then have "(e, c) \<in> (\<lambda>(y, c). (y, c @ replicate (nGroups ?rest) None)) ` set (rmatch ic S True (Group r) x)
      \<or> (e, c) \<in> (\<lambda>(y, c). (y, replicate (nGroups (Group r)) None @ c)) ` set (rmatch ic S True ?rest x)"
    by (simp only: rmatch.simps(6) set_append set_map Un_iff)
  then show ?case
  proof
    assume "(e, c) \<in> (\<lambda>(y, c). (y, c @ replicate (nGroups ?rest) None)) ` set (rmatch ic S True (Group r) x)"
    then obtain c1 where c1: "(e, c1) \<in> set (rmatch ic S True (Group r) x)"
      and c: "c = c1 @ replicate (nGroups ?rest) None"
      by (auto simp del: rmatch.simps)
    from "3.prems"(1) have "nGroups r = 0" by simp
    from rmatch_Group_capture [OF this c1] c show ?thesis by simp
  next
    assume "(e, c) \<in> (\<lambda>(y, c). (y, replicate (nGroups (Group r)) None @ c)) ` set (rmatch ic S True ?rest x)"
    then obtain c2 where c2: "(e, c2) \<in> set (rmatch ic S True ?rest x)"
      and c: "c = replicate (nGroups (Group r)) None @ c2"
      by (auto simp del: rmatch.simps)
    from "3.prems"(1) have "\<forall>r \<in> set (r' # rs). nGroups r = 0" by simp
    from "3.IH" [OF this c2] c show ?thesis by simp
  qed
qed

lemma split_loop_join:
  "(\<And>q e c. exec_at rx S q = Some (e, c) \<Longrightarrow> join_tokens c = take (e - q) (drop q S))
     \<Longrightarrow> p \<le> q \<Longrightarrow> q \<le> length S \<Longrightarrow> join_tokens (split_loop rx S p q) = drop p S"
proof (induction rx S p q rule: split_loop.induct)
  case (1 rx S p q)
  note cap = "1.prems"(1)
  show ?case
  proof (cases "q < length S")
    case False
    then show ?thesis by (subst split_loop.simps) simp
  next
    case True
    show ?thesis
    proof (cases "exec_at rx S q")
      case None
      with True "1.IH"(1) [OF True None cap] "1.prems"(2) show ?thesis
        by (subst split_loop.simps) simp
    next
      case (Some m)
      obtain li caps where m: "m = (li, caps)" by (cases m)
      from exec_at_range [of rx S q li caps] Some m True
      have rng: "q \<le> li" "li \<le> length S" by simp_all
      then have e: "min li (length S) = li" by simp
      show ?thesis
      proof (cases "li = p")
        case True
        with \<open>q < length S\<close> Some m e
          "1.IH"(2) [OF \<open>q < length S\<close> Some m [symmetric] refl _ cap] "1.prems"(2)
        show ?thesis
          by (subst split_loop.simps) simp
      next
        case False
        have rest: "join_tokens (split_loop rx S li li) = drop li S"
          using "1.IH"(3) [OF \<open>q < length S\<close> Some m [symmetric] refl _ cap] False e rng by simp
        have "join_tokens (split_loop rx S p q) =
            take (q - p) (drop p S) @ join_tokens caps @ drop li S"
          using \<open>q < length S\<close> Some m e False rest by (subst split_loop.simps) simp
        also have "join_tokens caps = take (li - q) (drop q S)"
          using cap [of q li caps] Some m by simp
        also have "take (q - p) (drop p S) @ take (li - q) (drop q S) @ drop li S = drop p S"
        proof -
          have "drop q S = take (li - q) (drop q S) @ drop li S"
            using rng by (metis append_take_drop_id drop_drop le_add_diff_inverse2)
          moreover have "drop p S = take (q - p) (drop p S) @ drop q S"
            using "1.prems"(2) by (metis append_take_drop_id drop_drop le_add_diff_inverse2)
          ultimately show ?thesis by simp
        qed
        finally show ?thesis .
      qed
    qed
  qed
qed

lemma js_split_join:
  assumes cap: "\<And>q e c. exec_at rx S q = Some (e, c) \<Longrightarrow> join_tokens c = take (e - q) (drop q S)"
  shows "join_tokens (js_split S rx) = S"
proof (cases "S = []")
  case True
  then show ?thesis by (simp add: js_split_def split: option.splits)
next
  case False
  with split_loop_join [of rx S 0 0] cap show ?thesis by (simp add: js_split_def)
qed

lemma default_tokenizer_source:
  "source (combineRegex default_tokenizer) =
     join_alt (map Group [source case_toneMarks, source periodComma, source colon, source otherPunctuation])"
  by (simp add: combineRegex_def default_tokenizer_def)

lemma default_cases_no_groups:
  "\<forall>r \<in> set [source case_toneMarks, source periodComma, source colon, source otherPunctuation].
     nGroups r = 0"
  by (simp add: case_toneMarks_def periodComma_def colon_def otherPunctuation_def
      RegexBuilder_def escapeRegExp_def split_chars_def set_elements_def
      ALL_PUNC_def TONE_MARKS_def PERIOD_COMMA_def COLON_def Let_def)

lemma Tokenizer_run_lossless:
  "join_tokens (Tokenizer_run default_tokenizer s) = s"
  unfolding Tokenizer_run_def
proof (rule js_split_join)
  fix q e c
  assume "exec_at (combineRegex default_tokenizer) s q = Some (e, c)"
  from exec_at_mem [OF this]
  have "(e, c) \<in> set (rmatch (ignoreCase (combineRegex default_tokenizer)) s True
      (join_alt (map Group [source case_toneMarks, source periodComma, source colon,
         source otherPunctuation])) q)"
    by (simp only: default_tokenizer_source)
  from grouped_alternatives_capture [OF default_cases_no_groups this]
  show "join_tokens c = take (e - q) (drop q s)" .
qed

section \<open>Properties of the engine\<close>

text \<open>
  For every instance: \<open>tokenize\<close> has an outcome, its chunks obey the bound and are
  not empty, and \<open>prepareRequests\<close> raises the empty-input error exactly on the empty
  list.
\<close>

lemma trim_length: "length (trim s) \<le> length s"
proof -
  have "length (trim s) \<le> length (dropWhile isWhiteSpace s)"
    unfolding trim_def using length_dropWhile_le [of isWhiteSpace "rev (dropWhile isWhiteSpace s)"]
    by simp
  also have "\<dots> \<le> length s" by (rule length_dropWhile_le)
  finally show ?thesis .
qed

lemma minimize_each_total_bounded:
  "\<exists>ys. minimize_each ts = Some ys \<and> (\<forall>y \<in> set ys. int (length y) \<le> GOOGLE_TTS_MAX_CHARS)"
proof (induction ts)
  case Nil
  then show ?case by simp
next
  case (Cons t ts)
  have "0 < GOOGLE_TTS_MAX_CHARS" by (simp add: GOOGLE_TTS_MAX_CHARS_def)
  from minimize_total_bounded [OF this, of t "js '' ''"] obtain pieces
    where "minimize t (js '' '') GOOGLE_TTS_MAX_CHARS = Some pieces"
      and "\<forall>y \<in> set pieces. int (length y) \<le> GOOGLE_TTS_MAX_CHARS"
    by blast
  moreover from Cons.IH obtain others
    where "minimize_each ts = Some others"
      and "\<forall>y \<in> set others. int (length y) \<le> GOOGLE_TTS_MAX_CHARS"
    by blast
  ultimately show ?case by auto
qed

lemma cleanTokens_single:
  "cleanTokens [Some s] = Inr (if trim s \<noteq> [] \<and> \<not> ALL_PUNC_OR_SPACE (trim s) then [trim s] else [])"
  by (simp add: cleanTokens_def)

lemma tokenize_total: "\<exists>r. tokenize tts rawText = Some r"
proof -
  let ?text2 = "foldl (\<lambda>t pp. pp t) (trim rawText) (preProcessorFuncs tts)"
  show ?thesis
  proof (cases "int (length ?text2) \<le> GOOGLE_TTS_MAX_CHARS")
    case True
    then show ?thesis by (simp add: tokenize_def Let_def)
  next
    case False
    show ?thesis
    proof (cases "cleanTokens (tokenizerFunc tts ?text2)")
      case (Inl err)
      with False show ?thesis by (simp add: tokenize_def Let_def)
    next
      case (Inr cleaned)
      from minimize_each_total_bounded [of cleaned] obtain ys where "minimize_each cleaned = Some ys"
        by blast
      with False Inr show ?thesis by (simp add: tokenize_def Let_def)
    qed
  qed
qed

lemma tokenize_chunks:
  assumes "tokenize tts rawText = Some (Inr chunks)"
  shows "\<forall>c \<in> set chunks. int (length c) \<le> GOOGLE_TTS_MAX_CHARS \<and> c \<noteq> []"
    and "int (length (foldl (\<lambda>t pp. pp t) (trim rawText) (preProcessorFuncs tts))) \<le> GOOGLE_TTS_MAX_CHARS
      \<Longrightarrow> \<forall>c \<in> set chunks. \<not> ALL_PUNC_OR_SPACE c"
proof -
  let ?text2 = "foldl (\<lambda>t pp. pp t) (trim rawText) (preProcessorFuncs tts)"
  show "\<forall>c \<in> set chunks. int (length c) \<le> GOOGLE_TTS_MAX_CHARS \<and> c \<noteq> []"
  proof (cases "int (length ?text2) \<le> GOOGLE_TTS_MAX_CHARS")
    case True
    with assms have "chunks = (if trim ?text2 \<noteq> [] \<and> \<not> ALL_PUNC_OR_SPACE (trim ?text2) then [trim ?text2] else [])"
      by (simp add: tokenize_def Let_def cleanTokens_single)
    with True trim_length [of ?text2] show ?thesis by (auto split: if_splits)
  next
    case False
    with assms obtain cleaned minTokens where "minimize_each cleaned = Some minTokens"
      and "chunks = filter (\<lambda>t. t \<noteq> []) minTokens"
      by (auto simp: tokenize_def Let_def split: sum.splits bind_splits)
    with minimize_each_total_bounded [of cleaned] show ?thesis by auto
  qed
  show "\<forall>c \<in> set chunks. \<not> ALL_PUNC_OR_SPACE c"
    if "int (length ?text2) \<le> GOOGLE_TTS_MAX_CHARS"
  proof -
    from that assms have "chunks = (if trim ?text2 \<noteq> [] \<and> \<not> ALL_PUNC_OR_SPACE (trim ?text2) then [trim ?text2] else [])"
      by (simp add: tokenize_def Let_def cleanTokens_single)
    then show ?thesis by (auto split: if_splits)
  qed
qed

lemma prepareRequests_empty_iff:
  "prepareRequests encode tts = Some (Inl NoTextToSend) \<longleftrightarrow> tokenize tts (the_text tts) = Some (Inr [])"
proof (cases "tokenize tts (the_text tts)")
  case None
  then show ?thesis by (simp add: prepareRequests_def Let_def)
next
  case (Some r)
  show ?thesis
  proof (cases r)
    case (Inl err)
    have "err \<noteq> NoTextToSend"
    proof
      assume "err = NoTextToSend"
      with Some Inl have t: "tokenize tts (the_text tts) = Some (Inl NoTextToSend)" by simp
      then show False
        by (auto simp: tokenize_def Let_def cleanTokens_def split: if_splits sum.splits option.splits bind_splits)
    qed
    with Some Inl show ?thesis by (simp add: prepareRequests_def Let_def)
  next
    case (Inr parts)
    with Some show ?thesis by (cases parts) (simp_all add: prepareRequests_def Let_def)
  qed
qed

lemma prepareRequests_total: "\<exists>r. prepareRequests encode tts = Some r"
  using tokenize_total [of tts "the_text tts"]
  by (auto simp: prepareRequests_def Let_def split: sum.splits)

lemma stream_empty:
  "tokenize tts (the_text tts) = Some (Inr []) \<Longrightarrow>
     stream fetch encode tts = Some ([], Some NoTextToSend, [])"
  by (simp add: stream_def prepareRequests_def Let_def)

text \<open>
  A sufficient condition for a pattern to match nowhere in \<open>S\<close>, in either direction:
  on every path through the pattern lies a literal that is not a letter and does not
  occur in \<open>S\<close>. A substitution or a split with such a pattern leaves the text as it
  is.
\<close>

fun cannot_match :: "jsstring \<Rightarrow> regex \<Rightarrow> bool" where
  "cannot_match S (Chr c) =
     (c \<notin> set S \<and> \<not> (65 \<le> c \<and> c \<le> 90) \<and> \<not> (97 \<le> c \<and> c \<le> 122))"
| "cannot_match S (Seq r1 r2) = (cannot_match S r1 \<or> cannot_match S r2)"
| "cannot_match S (Alt r1 r2) = (cannot_match S r1 \<and> cannot_match S r2)"
| "cannot_match S (Group r) = cannot_match S r"
| "cannot_match S (LookAhead r) = cannot_match S r"
| "cannot_match S (LookBehind r) = cannot_match S r"
| "cannot_match S _ = False"

lemma canonicalize_nonletter:
  "\<not> (65 \<le> c \<and> c \<le> 90) \<Longrightarrow> \<not> (97 \<le> c \<and> c \<le> 122) \<Longrightarrow>
     (canonicalize ic ch = canonicalize ic c) = (ch = c)"
  by (auto simp: canonicalize_def)

lemma cannot_match_rmatch:
  "cannot_match S r \<Longrightarrow> rmatch ic S fw r x = []"
proof (induction r arbitrary: x fw)
  case (Chr c)
  then show ?case
    by (auto simp: charSetMatcher_def canonicalize_nonletter dest: nth_mem)
next
  case (Seq r1 r2)
  then show ?case by (cases fw) auto
qed auto

lemma cannot_match_exec_at:
  "cannot_match S (source rx) \<Longrightarrow> exec_at rx S q = None"
  by (simp add: exec_at_def cannot_match_rmatch)

lemma RegExpBuiltinExec_no_match:
  assumes "\<And>q. exec_at rx S q = None"
  shows "RegExpBuiltinExec rx S i = None"
proof (induction "Suc (length S) - i" arbitrary: i)
  case 0
  then show ?case by (simp add: RegExpBuiltinExec_end)
next
  case (Suc n)
  then have "i \<le> length S" and "n = Suc (length S) - Suc i" by simp_all
  with Suc.hyps(1) [of "Suc i"] RegExpBuiltinExec_skip [of i S rx] assms show ?case by simp
qed

lemma replace_global_no_match:
  assumes "\<And>q. exec_at rx S q = None"
  shows "replace_global S rx rp = S"
  unfolding replace_global_def
  by (subst replace_loop.simps) (simp add: RegExpBuiltinExec_no_match [OF assms])

lemma split_loop_no_match:
  "(\<And>q. exec_at rx S q = None) \<Longrightarrow> split_loop rx S p q = [Some (drop p S)]"
proof (induction rx S p q rule: split_loop.induct)
  case (1 rx S p q)
  show ?case
  proof (cases "q < length S")
    case True
    with "1.IH"(1) [OF True "1.prems" "1.prems"] "1.prems" show ?thesis
      by (subst split_loop.simps) simp
  next
    case False
    then show ?thesis by (subst split_loop.simps) simp
  qed
qed

lemma js_split_no_match:
  assumes "\<And>q. exec_at rx S q = None"
  shows "js_split S rx = [Some S]"
proof (cases "S = []")
  case True
  with assms [of 0] show ?thesis by (simp add: js_split_def)
next
  case False
  with split_loop_no_match [of rx S 0 0] assms show ?thesis by (simp add: js_split_def)
qed

lemma PreProcessorRegex_run_no_match:
  assumes "\<forall>rx \<in> set (regexes pp). cannot_match S (source rx)"
  shows "PreProcessorRegex_run pp S = S"
proof -
  have "foldl (\<lambda>t regex.
              let fl = (if CHR ''g'' \<in> set (flags regex) then flags regex
                        else flags regex @ ''g'');
                  globalRegex = \<lparr>source = source regex, flags = fl\<rparr>
              in replace_global t globalRegex (repl pp)) S rs = S"
    if "\<forall>rx \<in> set rs. cannot_match S (source rx)" for rs
    using that
  proof (induction rs)
    case Nil
    then show ?case by simp
  next
    case (Cons rx rs)
    then show ?case
      by (simp add: Let_def replace_global_no_match cannot_match_exec_at)
  qed
  from this [OF assms] show ?thesis by (simp add: PreProcessorRegex_run_def)
qed

text \<open>
  The default pre-processors leave a text without tone marks, newlines and periods
  unchanged, and the default tokenizer returns a text without any character of
  \<open>ALL_PUNC\<close> as its single token.
\<close>

definition punctuation_free :: "jsstring \<Rightarrow> bool" where
  "punctuation_free S = (\<forall>c \<in> set S. c \<notin> set ALL_PUNC)"

lemma pre_processors_identity:
  assumes tm: "\<forall>ch \<in> set S. ch \<notin> set TONE_MARKS" and nl: "10 \<notin> set S" and dot: "46 \<notin> set S"
  shows "toneMarks S = S" and "endOfLine S = S" and "abbreviations S = S" and "wordSub S = S"
proof -
  have "concat (map (\<lambda>ch. if ch \<in> set TONE_MARKS then [ch, 32] else [ch]) xs) = xs"
    if "\<forall>ch \<in> set xs. ch \<notin> set TONE_MARKS" for xs
    using that by (induction xs) auto
  from this [OF tm] show "toneMarks S = S" by (simp add: toneMarks_inserts)
  from nl show "endOfLine S = S"
    by (simp add: endOfLine_def new_PreProcessorRegex_def RegexBuilder_def
        PreProcessorRegex_run_no_match)
  from dot show "abbreviations S = S"
    by (simp add: abbreviations_def new_PreProcessorRegex_def RegexBuilder_def
        PreProcessorRegex_run_no_match)
  from dot show "wordSub S = S"
    by (simp add: wordSub_def new_PreProcessorSub_def PreProcessorSub_run_def SUB_PAIRS_def
        new_PreProcessorRegex_def RegexBuilder_def escapeRegExp_def js_def
        PreProcessorRegex_run_no_match)
qed

lemma punctuation_free_pre_processors:
  assumes "punctuation_free S"
  shows "toneMarks S = S" and "endOfLine S = S" and "abbreviations S = S" and "wordSub S = S"
proof -
  from assms have "\<forall>ch \<in> set S. ch \<notin> set TONE_MARKS" and "10 \<notin> set S" and "46 \<notin> set S"
    by (auto simp: punctuation_free_def ALL_PUNC_def TONE_MARKS_def)
  from pre_processors_identity [OF this]
  show "toneMarks S = S" and "endOfLine S = S" and "abbreviations S = S" and "wordSub S = S" .
qed

lemma punctuation_free_single_token:
  assumes "punctuation_free S"
  shows "Tokenizer_run default_tokenizer S = [Some S]"
proof -
  from assms have "cannot_match S (source (combineRegex default_tokenizer))"
    by (auto simp: punctuation_free_def combineRegex_def default_tokenizer_def case_toneMarks_def
        periodComma_def colon_def otherPunctuation_def RegexBuilder_def escapeRegExp_def
        split_chars_def set_elements_def ALL_PUNC_def TONE_MARKS_def PERIOD_COMMA_def COLON_def
        Let_def)
  then show ?thesis
    by (simp add: Tokenizer_run_def js_split_no_match cannot_match_exec_at)
qed

lemma tokenize_default_punctuation_free:
  assumes "punctuation_free (trim S)"
  shows "tokenize (default_gTTS t) S =
     (if int (length (trim S)) \<le> GOOGLE_TTS_MAX_CHARS then Some (cleanTokens [Some (trim S)])
      else (case cleanTokens [Some (trim S)] of
              Inl err \<Rightarrow> Some (Inl err)
            | Inr cleanedTokens \<Rightarrow>
                do { minTokens \<leftarrow> minimize_each cleanedTokens;
                     Some (Inr (filter (\<lambda>t. t \<noteq> []) minTokens)) }))"
  by (simp add: tokenize_def default_gTTS_def Let_def
      punctuation_free_pre_processors [OF assms] punctuation_free_single_token [OF assms])

text \<open>
  The default engine on three texts: \<^verbatim>\<open>a\<close>, 250 spaces and \<^verbatim>\<open>b\<close>; two spaces;
  \<^verbatim>\<open>Hello world\<close>.
\<close>

lemma lastIndexOf_hit:
  assumes "0 \<le> pos" and "nat pos \<le> length s" and "take (length d) (drop (nat pos) s) = d"
  shows "lastIndexOf s d pos = pos"
  using assms by (simp add: lastIndexOf_def Let_def min_def)

lemma minimize_long_blank:
  "minimize (97 # replicate 250 32 @ [98]) (js '' '') GOOGLE_TTS_MAX_CHARS
     = Some [97 # replicate 99 32, replicate 100 32, replicate 49 32 @ [98]]"
proof -
  have sp: "js '' '' = [32]" by (simp add: js_def)
  have l1: "lastIndexOf (97 # replicate 250 32 @ [98]) [32] 100 = 100"
    by (rule lastIndexOf_hit) simp_all
  have l2: "lastIndexOf (replicate 150 32 @ [98]) [32] 100 = 100"
    by (rule lastIndexOf_hit) simp_all
  have m3: "minimize (replicate 50 32 @ [98]) [32] 100 = Some [replicate 49 32 @ [98 :: nat]]"
    by (subst minimize.simps) (simp add: startsWith_def substring_from_def Let_def)
  have m2: "minimize (replicate 151 32 @ [98]) [32] 100
      = Some [replicate 100 32, replicate 49 32 @ [98 :: nat]]"
    by (subst minimize.simps)
      (simp add: startsWith_def substring_from_def substring_to_def Let_def l2 m3)
  show ?thesis
    unfolding sp GOOGLE_TTS_MAX_CHARS_def
    by (subst minimize.simps)
      (simp add: startsWith_def substring_from_def substring_to_def Let_def l1 m2)
qed

lemma trim_long_blank: "trim (97 # replicate 250 32 @ [98]) = 97 # replicate 250 32 @ [98]"
  by (simp add: trim_def isWhiteSpace_def)

lemma tokenize_long_blank:
  "tokenize (default_gTTS (97 # replicate 250 32 @ [98])) (97 # replicate 250 32 @ [98])
     = Some (Inr [97 # replicate 99 32, replicate 100 32, replicate 49 32 @ [98]])"
proof -
  have pf: "punctuation_free (trim (97 # replicate 250 32 @ [98]))"
    by (simp add: trim_long_blank punctuation_free_def ALL_PUNC_def)
  have ct: "cleanTokens [Some (97 # replicate 250 32 @ [98])] = Inr [97 # replicate 250 32 @ [98]]"
    by (simp add: cleanTokens_single trim_long_blank ALL_PUNC_OR_SPACE_def ALL_PUNC_def
        isWhiteSpace_def)
  show ?thesis
    by (simp add: tokenize_default_punctuation_free [OF pf] trim_long_blank ct
        minimize_long_blank GOOGLE_TTS_MAX_CHARS_def [symmetric])
      (simp add: GOOGLE_TTS_MAX_CHARS_def)
qed

lemma tokenize_blank:
  "tokenize (default_gTTS (js ''  '')) (js ''  '') = Some (Inr [])"
proof -
  have tr: "trim (js ''  '') = []" by (simp add: trim_def isWhiteSpace_def js_def)
  have t0: "trim [] = []" by (simp add: trim_def)
  have pf: "punctuation_free (trim (js ''  ''))" by (simp add: tr punctuation_free_def)
  show ?thesis
    by (simp add: tokenize_default_punctuation_free [OF pf] tr t0 cleanTokens_single
        GOOGLE_TTS_MAX_CHARS_def)
qed

lemma tokenize_hello:
  "tokenize (default_gTTS (js ''Hello world'')) (js ''Hello world'') = Some (Inr [js ''Hello world''])"
proof -
  have tr: "trim (js ''Hello world'') = js ''Hello world''"
    by (simp add: trim_def isWhiteSpace_def js_def)
  have pf: "punctuation_free (trim (js ''Hello world''))"
    by (simp add: tr) (simp add: punctuation_free_def js_def ALL_PUNC_def)
  show ?thesis
    by (simp add: tokenize_default_punctuation_free [OF pf] tr cleanTokens_single
        GOOGLE_TTS_MAX_CHARS_def)
      (simp add: js_def ALL_PUNC_OR_SPACE_def ALL_PUNC_def isWhiteSpace_def)
qed

lemma default_pre_processing_punctuation_free:
  assumes "punctuation_free S"
  shows "foldl (\<lambda>t pp. pp t) S (preProcessorFuncs (default_gTTS t)) = S"
  by (simp add: default_gTTS_def punctuation_free_pre_processors [OF assms])

text \<open>
  The default engine on 100 times \<^verbatim>\<open>a\<close> followed by \<^verbatim>\<open>", b"\<close>: no rule matches
  before the comma, the period/comma rule matches at index 100, and the result of the
  tokenizer has \<^verbatim>\<open>undefined\<close> elements.
\<close>

lemmas case_defs = case_toneMarks_def periodComma_def colon_def
      otherPunctuation_def RegexBuilder_def escapeRegExp_def split_chars_def set_elements_def
      ALL_PUNC_def TONE_MARKS_def PERIOD_COMMA_def COLON_def Let_def

lemma tone_no_match:
  assumes "0 < q \<longrightarrow> S ! (q - 1) \<notin> set TONE_MARKS"
  shows "rmatch ic S True (source case_toneMarks) q = []"
  using assms
  by (auto simp: case_defs charSetMatcher_def canonicalize_nonletter)

lemma periodComma_no_match:
  assumes "S ! q \<notin> set ALL_PUNC"
  shows "rmatch True S True (source periodComma) q = []"
  using assms
  by (simp add: case_defs charSetMatcher_def canonicalize_nonletter rmatch_az del: rmatch.simps(4) split: list.splits)

lemma colon_no_match:
  assumes "S ! q \<notin> set ALL_PUNC"
  shows "rmatch ic S True (source colon) q = []"
  using assms
  by (simp add: case_defs charSetMatcher_def canonicalize_nonletter rmatch_digit del: rmatch.simps(4) split: list.splits)

lemma other_no_match:
  assumes "S ! q \<notin> set ALL_PUNC"
  shows "rmatch ic S True (source otherPunctuation) q = []"
  using assms
  by (simp add: case_defs charSetMatcher_def canonicalize_nonletter)

lemma exec_at_default_no_match_local:
  assumes "S ! q \<notin> set ALL_PUNC" and "0 < q \<longrightarrow> S ! (q - 1) \<notin> set TONE_MARKS"
  shows "exec_at (combineRegex default_tokenizer) S q = None"
  by (simp add: exec_at_def combineRegex_def default_tokenizer_def ignoreCase_def
      tone_no_match [OF assms(2)] periodComma_no_match [OF assms(1)]
      colon_no_match [OF assms(1)] other_no_match [OF assms(1)])

lemma split_loop_skip_to:
  assumes "\<And>i. q \<le> i \<Longrightarrow> i < k \<Longrightarrow> exec_at rx S i = None" and "q \<le> k" and "k \<le> length S"
  shows "split_loop rx S p q = split_loop rx S p k"
  using assms
proof (induction "k - q" arbitrary: q)
  case 0
  then show ?case by simp
next
  case (Suc n)
  then have "q < k" "exec_at rx S q = None" "q < length S" by simp_all
  then have "split_loop rx S p q = split_loop rx S p (Suc q)"
    by (subst split_loop.simps) simp
  also have "\<dots> = split_loop rx S p k"
    using Suc.hyps(2) Suc.prems by (intro Suc.hyps(1)) simp_all
  finally show ?case .
qed

lemma Tokenizer_run_long_comma:
  "Tokenizer_run default_tokenizer (97 # replicate 99 97 @ js '', b'')
     = [Some (97 # replicate 99 97), None, Some (js '', ''), None, None, Some (js ''b'')]"
proof -
  let ?S = "97 # replicate 99 97 @ [44, 32, 98 :: nat]"
  let ?rx = "combineRegex default_tokenizer"
  have none: "exec_at ?rx ?S i = None" if "i < 100" for i
    using that
    by (intro exec_at_default_no_match_local)
      (auto simp: nth_append nth_Cons' ALL_PUNC_def TONE_MARKS_def)
  have skip: "split_loop ?rx ?S 0 0 = split_loop ?rx ?S 0 100"
    by (rule split_loop_skip_to) (simp_all add: none)
  have hit: "exec_at ?rx ?S 100 = Some (102, [None, Some [44, 32], None, None])"
    by (simp add: exec_at_def combineRegex_def default_tokenizer_def ignoreCase_def
        case_defs charSetMatcher_def canonicalize_def isLineTerminator_def
        rmatch_az rmatch_digit nth_append del: rmatch.simps(4))
  have last: "exec_at ?rx ?S 102 = None"
    by (intro exec_at_default_no_match_local) (auto simp: nth_append ALL_PUNC_def TONE_MARKS_def)
  have "split_loop ?rx ?S 102 102 = [Some [98]]"
    by (subst split_loop.simps, simp add: last, subst split_loop.simps, simp)
  then have "split_loop ?rx ?S 0 100
      = [Some (97 # replicate 99 97), None, Some [44, 32], None, None, Some [98]]"
    by (subst split_loop.simps) (simp add: hit)
  with skip show ?thesis by (simp add: Tokenizer_run_def js_split_def js_def)
qed

lemma tokenize_long_comma:
  "tokenize (default_gTTS (97 # replicate 99 97 @ js '', b'')) (97 # replicate 99 97 @ js '', b'')
     = Some (Inl TypeError)"
proof -
  let ?T = "97 # replicate 99 97 @ js '', b''"
  have tr: "trim ?T = ?T" by (simp add: trim_def isWhiteSpace_def js_def)
  have "\<forall>ch \<in> set ?T. ch \<notin> set TONE_MARKS" "10 \<notin> set ?T" "46 \<notin> set ?T"
    by (simp_all add: js_def TONE_MARKS_def)
  note pp = pre_processors_identity [OF this]
  have len: "\<not> int (length ?T) \<le> GOOGLE_TTS_MAX_CHARS"
    by (simp add: GOOGLE_TTS_MAX_CHARS_def js_def)
  show ?thesis
    using len
    by (simp add: tokenize_def default_gTTS_def Let_def tr pp Tokenizer_run_long_comma
        cleanTokens_def)
qed

text \<open>
  Every pattern of the default tokenizer consumes at least one code unit, and a match of
  an alternation of two or more capturing groups leaves a group \<^verbatim>\<open>undefined\<close>. So
  whenever a rule of the default tokenizer matches somewhere in the text, the array the
  tokenizer returns has an \<^verbatim>\<open>undefined\<close> element.
\<close>

fun consumes :: "regex \<Rightarrow> bool" where
  "consumes (Chr c) = True"
| "consumes Dot = True"
| "consumes (ClassRange a b) = True"
| "consumes (Seq r1 r2) = (consumes r1 \<or> consumes r2)"
| "consumes (Alt r1 r2) = (consumes r1 \<and> consumes r2)"
| "consumes (Group r) = consumes r"
| "consumes _ = False"

lemma consumes_rmatch:
  "consumes r \<Longrightarrow> (e, c) \<in> set (rmatch ic S True r x) \<Longrightarrow> x < e"
proof (induction r arbitrary: x e c)
  case (Seq r1 r2)
  from Seq.prems(2) obtain y c1 c2 where
    m1: "(y, c1) \<in> set (rmatch ic S True r1 x)" and m2: "(e, c2) \<in> set (rmatch ic S True r2 y)"
    by auto
  from rmatch_range [OF m1] rmatch_range [OF m2] have "x \<le> y" "y \<le> e" by simp_all
  with Seq.IH(1) [OF _ m1] Seq.IH(2) [OF _ m2] Seq.prems(1) show ?case by auto
qed (auto simp: charSetMatcher_def split: if_splits)

lemma grouped_alternatives_undefined:
  assumes "2 \<le> length rs"
    and "(e, c) \<in> set (rmatch ic S True (join_alt (map Group rs)) x)"
  shows "None \<in> set c"
proof -
  from assms(1) obtain r r' rs' where rs: "rs = r # r' # rs'"
    by (cases rs; cases "tl rs") auto
  let ?rest = "join_alt (map Group (r' # rs'))"
  have ng: "0 < nGroups ?rest" by (induction rs' arbitrary: r') auto
  from assms(2) rs
  have "(e, c) \<in> set (rmatch ic S True (Alt (Group r) ?rest) x)" by simp
  then have "(e, c) \<in> (\<lambda>(y, c). (y, c @ replicate (nGroups ?rest) None)) ` set (rmatch ic S True (Group r) x)
      \<or> (e, c) \<in> (\<lambda>(y, c). (y, replicate (nGroups (Group r)) None @ c)) ` set (rmatch ic S True ?rest x)"
    by (simp only: rmatch.simps(6) set_append set_map Un_iff)
  with ng show ?thesis by (auto simp del: rmatch.simps)
qed

lemma split_loop_undefined:
  "(\<And>q e c. exec_at rx S q = Some (e, c) \<Longrightarrow> q < e \<and> None \<in> set c) \<Longrightarrow>
     p \<le> q \<Longrightarrow> q \<le> q' \<Longrightarrow> q' < length S \<Longrightarrow> exec_at rx S q' \<noteq> None \<Longrightarrow>
     None \<in> set (split_loop rx S p q)"
proof (induction rx S p q rule: split_loop.induct)
  case (1 rx S p q)
  note hit = "1.prems"(1)
  from "1.prems" have q: "q < length S" by simp
  show ?case
  proof (cases "exec_at rx S q")
    case None
    with "1.prems" have "q \<noteq> q'" by auto
    with "1.prems" have "q + 1 \<le> q'" by simp
    from "1.IH"(1) [OF q None hit _ this "1.prems"(4,5)] "1.prems"(2) q None show ?thesis
      by (subst split_loop.simps) simp
  next
    case (Some m)
    obtain li caps where m: "m = (li, caps)" by (cases m)
    from hit [of q li caps] Some m have "q < li" "None \<in> set caps" by simp_all
    moreover from exec_at_range [of rx S q li caps] Some m q have "li \<le> length S" by simp
    ultimately show ?thesis
      using q Some m "1.prems"(2) by (subst split_loop.simps) (simp add: min_def)
  qed
qed

lemma those_undefined: "None \<in> set xs \<Longrightarrow> those xs = None"
  by (induction xs) (auto split: option.splits)

lemma default_tokenizer_consumes: "consumes (source (combineRegex default_tokenizer))"
  by (simp add: combineRegex_def default_tokenizer_def case_defs)

lemma Tokenizer_run_match_undefined:
  assumes "q < length s" and "exec_at (combineRegex default_tokenizer) s q \<noteq> None"
  shows "None \<in> set (Tokenizer_run default_tokenizer s)"
proof -
  let ?rx = "combineRegex default_tokenizer"
  have hit: "i < e \<and> None \<in> set c" if "exec_at ?rx s i = Some (e, c)" for i e c
  proof
    from exec_at_mem [OF that]
    have m: "(e, c) \<in> set (rmatch (ignoreCase ?rx) s True (source ?rx) i)" .
    from consumes_rmatch [OF default_tokenizer_consumes m] show "i < e" .
    from m have "(e, c) \<in> set (rmatch (ignoreCase ?rx) s True
      (join_alt (map Group [source case_toneMarks, source periodComma, source colon,
         source otherPunctuation])) i)"
      by (simp only: default_tokenizer_source)
    from grouped_alternatives_undefined [OF _ this] show "None \<in> set c" by simp
  qed
  from assms(1) have "s \<noteq> []" by auto
  moreover from split_loop_undefined [of ?rx s 0 0 q] hit assms
  have "None \<in> set (split_loop ?rx s 0 0)" by blast
  ultimately show ?thesis by (simp add: Tokenizer_run_def js_split_def)
qed

section \<open>The claims\<close>

text \<open>
  C1. For a positive \<open>maxSize\<close>, \<open>minimize\<close> returns a list and every element of it
  has length at most \<open>maxSize\<close>. Consequently \<open>tokenize\<close>, which always produces an
  outcome, returns only chunks of length at most its fixed maximum of 100, for every
  instance and every raw text. (When the tokenizer function returns an \<^verbatim>\<open>undefined\<close>
  element the outcome is a thrown error and no list is returned.)
\<close>

theorem size_invariant:
  "(0 < maxSize \<longrightarrow>
      (\<exists>chunks. minimize s d maxSize = Some chunks
         \<and> (\<forall>c \<in> set chunks. int (length c) \<le> maxSize)))
   \<and> (\<exists>outcome. tokenize tts rawText = Some outcome)
   \<and> (\<forall>chunks. tokenize tts rawText = Some (Inr chunks)
         \<longrightarrow> (\<forall>c \<in> set chunks. int (length c) \<le> GOOGLE_TTS_MAX_CHARS))"
  using minimize_total_bounded [of maxSize s d] tokenize_total [of tts rawText]
    tokenize_chunks(1) [of tts rawText]
  by blast

theorem size_invariant_witness:
  "(0 :: int) < 100
   \<and> minimize (97 # replicate 250 32 @ [98]) (js '' '') 100
       = Some [97 # replicate 99 32, replicate 100 32, replicate 49 32 @ [98]]
   \<and> tokenize (default_gTTS (97 # replicate 250 32 @ [98])) (97 # replicate 250 32 @ [98])
       = Some (Inr [97 # replicate 99 32, replicate 100 32, replicate 49 32 @ [98]])
   \<and> int (length (97 # replicate 99 (32 :: nat))) \<le> GOOGLE_TTS_MAX_CHARS
   \<and> int (length (replicate 100 (32 :: nat))) \<le> GOOGLE_TTS_MAX_CHARS
   \<and> int (length (replicate 49 32 @ [98 :: nat])) \<le> GOOGLE_TTS_MAX_CHARS"
  using size_invariant [of 100 "97 # replicate 250 32 @ [98]" "js '' ''"
      "default_gTTS (97 # replicate 250 32 @ [98])" "97 # replicate 250 32 @ [98]"]
    tokenize_long_blank minimize_long_blank
  by (simp add: GOOGLE_TTS_MAX_CHARS_def)

text \<open>
  C2. The claim (every element of the array \<^verbatim>\<open>Tokenizer.run\<close> returns is a string, so
  \<^verbatim>\<open>cleanTokens\<close> never fails) does not hold of the code: on \<^verbatim>\<open>"a, b"\<close> the period/comma
  group matches, the three other groups are \<^verbatim>\<open>undefined\<close> in the result, and
  \<^verbatim>\<open>cleanTokens\<close> throws a \<^verbatim>\<open>TypeError\<close> on the first of them. The engine fails in
  the same way on a text of more than 100 characters in which a rule matches, here 100
  times \<^verbatim>\<open>a\<close> followed by \<^verbatim>\<open>", b"\<close>. The same happens on every text in which a
  rule matches (\<open>Tokenizer_run_match_undefined\<close>).
\<close>

theorem Tokenizer_run_undefined_holes:
  "Tokenizer_run default_tokenizer (js ''a, b'')
     = [Some (js ''a''), None, Some (js '', ''), None, None, Some (js ''b'')]
   \<and> cleanTokens (Tokenizer_run default_tokenizer (js ''a, b'')) = Inl TypeError
   \<and> tokenize (default_gTTS (97 # replicate 99 97 @ js '', b''))
         (97 # replicate 99 97 @ js '', b'') = Some (Inl TypeError)"
  unfolding Tokenizer_run_a_comma_b tokenize_long_comma by (simp add: cleanTokens_def)

text \<open>
  C3, as amended. No chunk that \<open>tokenize\<close> returns is empty. The list of the
  flattened \<open>minimize\<close> results is only filtered for empty strings; it is not trimmed
  or cleaned again. Only when the pre-processed text is at most 100 characters long,
  and is cleaned as a single token, is the returned chunk guaranteed not to consist
  solely of white space and punctuation.
\<close>

theorem chunks_nonempty:
  "tokenize tts rawText = Some (Inr chunks) \<Longrightarrow>
     (\<forall>c \<in> set chunks. c \<noteq> [])
     \<and> (int (length (foldl (\<lambda>t pp. pp t) (trim rawText) (preProcessorFuncs tts)))
           \<le> GOOGLE_TTS_MAX_CHARS
        \<longrightarrow> (\<forall>c \<in> set chunks. \<not> ALL_PUNC_OR_SPACE c))"
  using tokenize_chunks [of tts rawText chunks] by blast

theorem chunks_nonempty_witness:
  "tokenize (default_gTTS (js ''Hello world'')) (js ''Hello world'')
       = Some (Inr [js ''Hello world''])
   \<and> int (length (foldl (\<lambda>t pp. pp t) (trim (js ''Hello world''))
         (preProcessorFuncs (default_gTTS (js ''Hello world''))))) \<le> GOOGLE_TTS_MAX_CHARS
   \<and> js ''Hello world'' \<noteq> []
   \<and> \<not> ALL_PUNC_OR_SPACE (js ''Hello world'')"
proof -
  have tr: "trim (js ''Hello world'') = js ''Hello world''"
    by (simp add: trim_def isWhiteSpace_def js_def)
  have "punctuation_free (js ''Hello world'')"
    by (simp add: punctuation_free_def js_def ALL_PUNC_def)
  from default_pre_processing_punctuation_free [OF this]
  have len: "int (length (foldl (\<lambda>t pp. pp t) (trim (js ''Hello world''))
         (preProcessorFuncs (default_gTTS (js ''Hello world''))))) \<le> GOOGLE_TTS_MAX_CHARS"
    by (simp add: tr) (simp add: js_def GOOGLE_TTS_MAX_CHARS_def)
  from chunks_nonempty [OF tokenize_hello] len tokenize_hello show ?thesis by simp
qed

text \<open>
  The claim as first stated (no returned chunk consists solely of white space, the
  flattened list being cleaned once more) fails on the text made of \<^verbatim>\<open>a\<close>, 250 spaces
  and \<^verbatim>\<open>b\<close>: the second chunk the default engine returns is 100 spaces.
\<close>

theorem chunks_whitespace_only_counterexample:
  "tokenize (default_gTTS (97 # replicate 250 32 @ [98])) (97 # replicate 250 32 @ [98])
       = Some (Inr [97 # replicate 99 32, replicate 100 32, replicate 49 32 @ [98]])
   \<and> ALL_PUNC_OR_SPACE (replicate 100 32)"
  using tokenize_long_blank
  by (simp add: ALL_PUNC_OR_SPACE_def isWhiteSpace_def list_all_iff)

text \<open>
  C4. For every finite string, every delimiter and every positive \<open>maxSize\<close>, the
  recursion of \<open>minimize\<close> ends: the call returns a list. This includes a string made
  only of the delimiter and a string without any occurrence of it.
\<close>

theorem minimize_terminates:
  "0 < maxSize \<Longrightarrow> \<exists>chunks. minimize theString delim maxSize = Some chunks"
  using minimize_total_bounded [of maxSize theString delim] by blast

theorem minimize_terminates_witness:
  "(0 :: int) < 3 \<and> (\<exists>chunks. minimize (js ''     '') (js '' '') 3 = Some chunks)
     \<and> (\<exists>chunks. minimize (js ''abcdefgh'') (js '' '') 3 = Some chunks)"
  using minimize_terminates [of 3 "js ''     ''" "js '' ''"]
    minimize_terminates [of 3 "js ''abcdefgh''" "js '' ''"]
  by simp

text \<open>
  C5, as amended. Nothing rejects a non-positive \<open>maxSize\<close>: on a string that does not
  start with the delimiter and is longer than \<open>maxSize\<close>, \<open>minimize\<close> called with
  \<open>maxSize \<le> 0\<close> recurses on the same string for ever and neither returns nor raises.
  The engine itself always passes its constant 100.
\<close>

theorem minimize_nonpositive_no_rejection:
  "GOOGLE_TTS_MAX_CHARS = 100 \<and>
   (maxSize \<le> 0 \<and> \<not> startsWith s d \<and> maxSize < int (length s)
      \<longrightarrow> minimize s d maxSize = None)"
  using minimize_diverges [of maxSize s d] by (simp add: GOOGLE_TTS_MAX_CHARS_def)

theorem minimize_nonpositive_no_rejection_witness:
  "(0 :: int) \<le> 0 \<and> \<not> startsWith (js ''ab'') (js '' '') \<and> 0 < int (length (js ''ab''))
     \<and> minimize (js ''ab'') (js '' '') 0 = None"
  using minimize_nonpositive_no_rejection [of 0 "js ''ab''" "js '' ''"]
  by (simp add: js_def startsWith_def)

text \<open>
  The claim as first stated (a non-positive maximum size is rejected with an error
  rather than recursing indefinitely) fails for \<open>maxSize = 0\<close> on the string \<^verbatim>\<open>"a"\<close>.
\<close>

theorem minimize_nonpositive_counterexample:
  "minimize (js ''a'') (js '' '') 0 = None"
  using minimize_diverges [of 0 "js ''a''" "js '' ''"] by (simp add: js_def startsWith_def)

text \<open>
  C6, as amended. The tone-mark pre-processor inserts a space immediately after every
  tone-mark character of the text, whatever follows the mark: its pattern \<^verbatim>\<open>(?<=x)\<close>
  looks only behind. A tone mark already followed by a space gets one more space.
\<close>

theorem toneMarks_space_after_every_mark:
  "toneMarks s = concat (map (\<lambda>ch. if ch \<in> set TONE_MARKS then [ch, 32] else [ch]) s)"
  by (rule toneMarks_inserts)

text \<open>
  The claim as first stated (no space is inserted after a tone mark that is already
  followed by a space) fails on \<^verbatim>\<open>"a? b"\<close>, which becomes \<^verbatim>\<open>"a?  b"\<close>.
\<close>

theorem toneMarks_counterexample:
  "toneMarks (js ''a? b'') = js ''a?  b'' \<and> toneMarks (js ''a? b'') \<noteq> js ''a? b''"
  by (simp add: toneMarks_inserts TONE_MARKS_def js_def)

text \<open>
  C7, as amended. Joining the tokens the default tokenizer returns, in order and with
  \<^verbatim>\<open>undefined\<close> entries contributing nothing (as \<^verbatim>\<open>join("")\<close> does), gives back the
  input exactly. Nothing is dropped: each rule is wrapped whole in a capturing group,
  so the trailing space of the period/comma rule is part of the delimiter token.
\<close>

theorem Tokenizer_run_reconstructs_input:
  "join_tokens (Tokenizer_run default_tokenizer s) = s"
  by (rule Tokenizer_run_lossless)

text \<open>
  The claim as first stated (the trailing space of the period/comma rule is dropped and
  appears in no token) fails on \<^verbatim>\<open>"a, b"\<close>: the space is in the token \<^verbatim>\<open>", "\<close> and the
  joined tokens are not \<^verbatim>\<open>"a,b"\<close>.
\<close>

theorem Tokenizer_run_trailing_space_counterexample:
  "Some (js '', '') \<in> set (Tokenizer_run default_tokenizer (js ''a, b''))
     \<and> join_tokens (Tokenizer_run default_tokenizer (js ''a, b'')) \<noteq> js ''a,b''"
  unfolding Tokenizer_run_a_comma_b by (simp add: js_def)

text \<open>
  C8, as amended. \<open>minimize\<close> first removes one leading occurrence of the delimiter
  from the token, if the token starts with it, and only then compares the length with
  \<open>maxSize\<close>. Whenever the token so stripped is no longer than \<open>maxSize\<close>, and so in
  particular whenever the token itself is, the result has one element, the stripped
  token: the token itself when it does not start with the delimiter, and the token
  without one leading occurrence of the delimiter when it does.
\<close>

theorem minimize_short:
  "(int (length (if startsWith t d then drop (length d) t else t)) \<le> maxSize
      \<longrightarrow> minimize t d maxSize = Some [if startsWith t d then drop (length d) t else t])
   \<and> (int (length t) \<le> maxSize
      \<longrightarrow> minimize t d maxSize = Some [if startsWith t d then drop (length d) t else t])"
proof -
  have stripped:
    "minimize t d maxSize = Some [if startsWith t d then drop (length d) t else t]"
    if "int (length (if startsWith t d then drop (length d) t else t)) \<le> maxSize"
    using that by (subst minimize.simps) (auto simp: Let_def substring_from_def)
  moreover have "int (length (if startsWith t d then drop (length d) t else t)) \<le> maxSize"
    if "int (length t) \<le> maxSize"
    using that by auto
  ultimately show ?thesis by blast
qed

text \<open>
  On \<^verbatim>\<open>" aaa"\<close> with \<open>maxSize = 3\<close> the token is longer than \<open>maxSize\<close> and the
  stripped token is not: the result is \<^verbatim>\<open>["aaa"]\<close>. On \<^verbatim>\<open>" a"\<close> with
  \<open>maxSize = 100\<close> the token itself is short and the result is \<^verbatim>\<open>["a"]\<close>.
\<close>

theorem minimize_short_witness:
  "startsWith (js '' aaa'') (js '' '')
   \<and> 3 < int (length (js '' aaa''))
   \<and> int (length (drop (length (js '' '')) (js '' aaa''))) \<le> 3
   \<and> minimize (js '' aaa'') (js '' '') 3 = Some [js ''aaa'']
   \<and> int (length (js '' a'')) \<le> 100
   \<and> startsWith (js '' a'') (js '' '')
   \<and> minimize (js '' a'') (js '' '') 100 = Some [js ''a'']"
  using minimize_short [of "js '' aaa''" "js '' ''" 3]
    minimize_short [of "js '' a''" "js '' ''" 100]
  by (simp add: js_def startsWith_def)

text \<open>
  The claim as first stated (the token comes back unchanged also when it starts with
  the delimiter) fails on the token \<^verbatim>\<open>" a"\<close>.
\<close>

theorem minimize_short_counterexample:
  "int (length (js '' a'')) \<le> 100 \<and> minimize (js '' a'') (js '' '') 100 \<noteq> Some [js '' a'']"
  by (subst minimize.simps) (simp add: js_def startsWith_def substring_from_def Let_def)

text \<open>
  C9. On \<^verbatim>\<open>"It costs 3.50 at 10:15."\<close> the default split rules match nowhere: the
  whole text is the single token, so there is no boundary inside \<^verbatim>\<open>3.50\<close> or
  \<^verbatim>\<open>10:15\<close>. In particular the period/comma rule fails at the period of \<^verbatim>\<open>3.50\<close> (index
  10) and the colon rule at the colon of \<^verbatim>\<open>10:15\<close> (index 19).
\<close>

theorem decimal_time_guard:
  "Tokenizer_run default_tokenizer (js ''It costs 3.50 at 10:15.'')
     = [Some (js ''It costs 3.50 at 10:15.'')]
   \<and> js ''It costs 3.50 at 10:15.'' ! 10 = 46
   \<and> rmatch True (js ''It costs 3.50 at 10:15.'') True (source periodComma) 10 = []
   \<and> js ''It costs 3.50 at 10:15.'' ! 19 = 58
   \<and> rmatch True (js ''It costs 3.50 at 10:15.'') True (source colon) 19 = []"
  by (simp add: tokenizer_eval del: rmatch.simps(4))

text \<open>
  C10. Preparing the requests raises the empty-input error (\<^verbatim>\<open>"No text to send to
  TTS API"\<close>) exactly when \<open>tokenize\<close> returns the empty list; \<open>stream\<close> then ends with
  that error without having yielded a buffer or issued a request. Preparing the requests
  always has an outcome.
\<close>

theorem empty_input_error:
  "(prepareRequests encode tts = Some (Inl NoTextToSend)
      \<longleftrightarrow> tokenize tts (the_text tts) = Some (Inr []))
   \<and> (tokenize tts (the_text tts) = Some (Inr [])
      \<longrightarrow> stream fetch encode tts = Some ([], Some NoTextToSend, []))
   \<and> (\<exists>outcome. prepareRequests encode tts = Some outcome)"
  using prepareRequests_empty_iff [of encode tts] stream_empty [of tts fetch encode]
    prepareRequests_total [of encode tts]
  by blast

theorem empty_input_error_witness:
  "tokenize (default_gTTS (js ''  '')) (the_text (default_gTTS (js ''  ''))) = Some (Inr [])
   \<and> prepareRequests (\<lambda>part lng slw. part) (default_gTTS (js ''  ''))
       = Some (Inl NoTextToSend)
   \<and> stream (\<lambda>req. ([] :: nat list, True)) (\<lambda>part lng slw. part) (default_gTTS (js ''  ''))
       = Some ([], Some NoTextToSend, [])"
proof -
  have t: "the_text (default_gTTS (js ''  '')) = js ''  ''"
    by (simp add: default_gTTS_def)
  from empty_input_error [of "\<lambda>part lng slw. part" "default_gTTS (js ''  '')"
      "\<lambda>req. ([] :: nat list, True)"] tokenize_blank
  show ?thesis by (simp add: t)
qed

end
